theory Spec2Isabelle
  imports Complex_Main
begin

section \<open>Members and the binary placement search\<close>

text \<open>
  A member document of \<^verbatim>\<open>models/User.ts\<close>, restricted to the fields the placement
  engine and the registration path read or write. Object ids are natural numbers.
  \<open>None\<close> stands for \<^verbatim>\<open>null\<close>.
\<close>

datatype BinaryPosition = Left | Right

record user =
  uid :: nat
  email :: string
  referralCode :: string
  parent :: "nat option"
  position :: "BinaryPosition option"

text \<open>
  The collection is a list of documents in creation order, so a query sorted by
  \<^verbatim>\<open>createdAt: 1\<close> is a filter of the list.
\<close>

type_synonym store = "user list"

text \<open>The parent reference of the member with a given id (an id \<open>\<rightarrow>\<close> node lookup).\<close>

definition parent_of :: "user list \<Rightarrow> nat \<Rightarrow> nat option" where
  "parent_of us m = (case find (\<lambda>u. uid u = m) us of None \<Rightarrow> None | Some u \<Rightarrow> parent u)"

text \<open>
  The errors of the placement search and of registration: the two \<^verbatim>\<open>throw\<close>
  statements of \<^verbatim>\<open>findBinaryPlacement\<close>, the duplicate-key rejection of a unique
  index, and the two early returns of the registration handler.
\<close>

datatype error =
    ExceededSafeLimit
  | UnableToFind
  | DuplicateKey
  | EmailInUse
  | InvalidReferralCode

definition MAX_VISITS :: nat where
  "MAX_VISITS = 200000"

definition pickMissingPosition :: "BinaryPosition set \<Rightarrow> BinaryPosition option" where
  "pickMissingPosition existing =
     (if Left \<notin> existing then Some Left
      else if Right \<notin> existing then Some Right
      else None)"

text \<open>
  The partial unique index of \<^verbatim>\<open>userSchema.index({parent: 1, position: 1}, ...)\<close>: a
  document is indexed only when its parent is an object id and its position is left or
  right. \<open>index_conflict st par pos\<close> says that writing the key \<open>(par, pos)\<close> would
  collide with a document of \<open>st\<close>.
\<close>

definition index_conflict :: "store \<Rightarrow> nat option \<Rightarrow> BinaryPosition option \<Rightarrow> bool" where
  "index_conflict st par pos =
     (case par of
        None \<Rightarrow> False
      | Some p \<Rightarrow>
          (case pos of
             None \<Rightarrow> False
           | Some q \<Rightarrow> list_ex (\<lambda>u. parent u = Some p \<and> position u = Some q) st))"

text \<open>
  \<^verbatim>\<open>UserModel.updateOne({_id: target, position: null}, {$set: {position: pos}})\<close>:
  the first document with that id and no position gets the position; no document
  matching is not an error. The write is rejected when it would break the index.
\<close>

fun update_first :: "('a \<Rightarrow> bool) \<Rightarrow> ('a \<Rightarrow> 'a) \<Rightarrow> 'a list \<Rightarrow> 'a list" where
  "update_first P f [] = []"
| "update_first P f (x # xs) = (if P x then f x # xs else x # update_first P f xs)"

definition updateOne :: "store \<Rightarrow> nat \<Rightarrow> BinaryPosition \<Rightarrow> error + store" where
  "updateOne st target pos =
     (case find (\<lambda>u. uid u = target \<and> position u = None) st of
        None \<Rightarrow> Inr st
      | Some t \<Rightarrow>
          if index_conflict st (parent t) (Some pos) then Inl DuplicateKey
          else Inr (update_first (\<lambda>u. uid u = target \<and> position u = None)
                      (\<lambda>u. u\<lparr>position := Some pos\<rparr>) st))"

text \<open>
  The \<^verbatim>\<open>for (const child of children)\<close> loop of \<^verbatim>\<open>findBinaryPlacement\<close>: it collects
  the occupied positions, the id of the (last) left and right child, and the ids of the
  children without a position, in creation order.
\<close>

fun classify ::
  "user list \<Rightarrow> BinaryPosition set \<Rightarrow> nat option \<Rightarrow> nat option \<Rightarrow> nat list
     \<Rightarrow> BinaryPosition set \<times> nat option \<times> nat option \<times> nat list" where
  "classify [] positions leftChildId rightChildId unpositioned =
     (positions, leftChildId, rightChildId, unpositioned)"
| "classify (child # children) positions leftChildId rightChildId unpositioned =
     (case position child of
        None \<Rightarrow> classify children positions leftChildId rightChildId (unpositioned @ [uid child])
      | Some pos \<Rightarrow>
          classify children (insert pos positions)
            (if pos = Left then Some (uid child) else leftChildId)
            (if pos = Right then Some (uid child) else rightChildId)
            unpositioned)"

text \<open>
  One of the two backfill blocks: when the slot \<open>pos\<close> has no child and an unpositioned
  child is left, the first of them is shifted off the list and given the slot. On a
  rejected write the exception leaves the function; the store keeps what was written
  before.
\<close>

definition backfill ::
  "store \<Rightarrow> BinaryPosition \<Rightarrow> nat option \<Rightarrow> BinaryPosition set \<Rightarrow> nat list
     \<Rightarrow> (error + (nat option \<times> BinaryPosition set \<times> nat list)) \<times> store" where
  "backfill st pos childId positions unpositioned =
     (case unpositioned of
        [] \<Rightarrow> (Inr (childId, positions, unpositioned), st)
      | target # rest \<Rightarrow>
          if childId = None then
            (case updateOne st target pos of
               Inl e \<Rightarrow> (Inl e, st)
             | Inr st' \<Rightarrow> (Inr (Some target, insert pos positions, rest), st'))
          else (Inr (childId, positions, unpositioned), st))"

text \<open>
  The body of the \<^verbatim>\<open>while\<close> loop for a node that is processed: read the children,
  backfill left then right, and either report the missing position or the ids to
  enqueue (left child, right child, then the leftover unpositioned children).
\<close>

definition visit ::
  "store \<Rightarrow> nat \<Rightarrow> (error + (BinaryPosition option \<times> nat list)) \<times> store" where
  "visit st parentId =
     (case classify (filter (\<lambda>u. parent u = Some parentId) st) {} None None [] of
        (positions0, left0, right0, unpositioned0) \<Rightarrow>
          (case backfill st Left left0 positions0 unpositioned0 of
             (Inl e, st1) \<Rightarrow> (Inl e, st1)
           | (Inr (leftChildId, positions1, unpositioned1), st1) \<Rightarrow>
               (case backfill st1 Right right0 positions1 unpositioned1 of
                  (Inl e, st2) \<Rightarrow> (Inl e, st2)
                | (Inr (rightChildId, positions2, unpositioned2), st2) \<Rightarrow>
                    (Inr (pickMissingPosition positions2,
                          (case leftChildId of None \<Rightarrow> [] | Some l \<Rightarrow> [l]) @
                          (case rightChildId of None \<Rightarrow> [] | Some r \<Rightarrow> [r]) @
                          unpositioned2),
                     st2))))"

type_synonym outcome = "(error + (nat \<times> BinaryPosition)) \<times> store"

text \<open>
  One iteration of the \<^verbatim>\<open>while (queue.length > 0)\<close> loop on the queue, the visited
  set (a duplicate-free list: an id is added only when it is not in it, so its length is
  the set's size) and the store. \<open>Inl\<close> is the state for the next iteration, \<open>Inr\<close>
  the function's outcome: a returned slot or a thrown error, with the store as left.
\<close>

definition loop_body ::
  "nat list \<Rightarrow> nat list \<Rightarrow> store \<Rightarrow> (nat list \<times> nat list \<times> store) + outcome" where
  "loop_body queue visited st =
     (case queue of
        [] \<Rightarrow> Inr (Inl UnableToFind, st)
      | parentId # rest \<Rightarrow>
          if parentId \<in> set visited then Inl (rest, visited, st)
          else if length (visited @ [parentId]) > MAX_VISITS then Inr (Inl ExceededSafeLimit, st)
          else
            (case visit st parentId of
               (Inl e, st') \<Rightarrow> Inr (Inl e, st')
             | (Inr (Some missing, kids), st') \<Rightarrow> Inr (Inr (parentId, missing), st')
             | (Inr (None, kids), st') \<Rightarrow> Inl (rest @ kids, visited @ [parentId], st')))"

function bfs :: "nat list \<Rightarrow> nat list \<Rightarrow> store \<Rightarrow> outcome" where
  "bfs queue visited st =
     (case loop_body queue visited st of
        Inr out \<Rightarrow> out
      | Inl (queue', visited', st') \<Rightarrow> bfs queue' visited' st')"
  by pat_completeness auto
termination
proof (relation "measures [\<lambda>(q, v, st). Suc MAX_VISITS - length v, \<lambda>(q, v, st). length q]")
  show "wf (measures [\<lambda>(q, v, st). Suc MAX_VISITS - length v,
                      \<lambda>(q :: nat list, v :: nat list, st :: store). length q])"
    by (rule wf_measures)
next
  fix queue visited :: "nat list" and st :: store and x1 queue' x2 visited' st'
  assume "loop_body queue visited st = Inl x1" "(queue', x2) = x1" "(visited', st') = x2"
  then have "loop_body queue visited st = Inl (queue', visited', st')"
    by simp
  then show "((queue', visited', st'), (queue, visited, st))
           \<in> measures [\<lambda>(q, v, st). Suc MAX_VISITS - length v, \<lambda>(q, v, st). length q]"
    by (auto simp: loop_body_def
             split: list.splits if_splits prod.splits sum.splits option.splits)
qed

declare bfs.simps [simp del]

definition findBinaryPlacement :: "nat \<Rightarrow> store \<Rightarrow> outcome" where
  "findBinaryPlacement sponsorId st = bfs [sponsorId] [] st"

section \<open>Registration\<close>

text \<open>
  \<^verbatim>\<open>UserModel.create\<close>: the insert is rejected by the unique indexes on
  \<^verbatim>\<open>email\<close> and \<^verbatim>\<open>referralCode\<close> and by the partial index on (parent, position).
  E-mail addresses are taken as already lower-cased.
\<close>

definition create_user :: "store \<Rightarrow> user \<Rightarrow> error + store" where
  "create_user st u =
     (if list_ex (\<lambda>x. email x = email u) st
         \<or> list_ex (\<lambda>x. referralCode x = referralCode u) st
         \<or> index_conflict st (parent u) (position u)
      then Inl DuplicateKey
      else Inr (st @ [u]))"

text \<open>
  The registration handler (\<^verbatim>\<open>POST /api/auth/register\<close>, the same in both servers), up
  to the created document. \<open>newId\<close> is the fresh object id and \<open>code\<close> the generated
  referral code. The handler holds no session or lock, so writes of other requests can
  land between the placement search and the insert: \<open>others\<close> is what they do to the
  store (the identity when the handler runs alone).
\<close>

definition register ::
  "(store \<Rightarrow> store) \<Rightarrow> nat \<Rightarrow> string \<Rightarrow> string \<Rightarrow> string option \<Rightarrow> store
     \<Rightarrow> (error + user) \<times> store" where
  "register others newId mail code refCode st =
     (if list_ex (\<lambda>u. email u = mail) st then (Inl EmailInUse, st)
      else
        (case (case refCode of
                 None \<Rightarrow> (Inr (None, None), st)
               | Some rc \<Rightarrow>
                   (case find (\<lambda>u. referralCode u = rc) st of
                      None \<Rightarrow> (Inl InvalidReferralCode, st)
                    | Some sponsor \<Rightarrow>
                        (case findBinaryPlacement (uid sponsor) st of
                           (Inl e, st1) \<Rightarrow> (Inl e, st1)
                         | (Inr (parentId, pos), st1) \<Rightarrow> (Inr (Some parentId, Some pos), st1))))
         of
           (Inl e, st1) \<Rightarrow> (Inl e, st1)
         | (Inr (parentId, pos), st1) \<Rightarrow>
             (let u = \<lparr>uid = newId, email = mail, referralCode = code,
                        parent = parentId, position = pos\<rparr>
              in case create_user (others st1) u of
                   Inl e \<Rightarrow> (Inl e, others st1)
                 | Inr st2 \<Rightarrow> (Inr u, st2))))"

text \<open>A run of registrations, one after the other, each with no interference.\<close>

fun register_all :: "(nat \<times> string \<times> string \<times> string option) list \<Rightarrow> store \<Rightarrow> store" where
  "register_all [] st = st"
| "register_all ((newId, mail, code, refCode) # reqs) st =
     register_all reqs (snd (register id newId mail code refCode st))"

text \<open>
  The registration the specification asks for (sections 5 and 7), for comparison: when the
  insert is rejected by a unique index, the caller searches for a placement and inserts
  again, for a bounded number \<open>n\<close> of further attempts. \<open>others k\<close> is the
  interference met by the attempt that has \<open>k\<close> retries left.
\<close>

fun register_retrying ::
  "nat \<Rightarrow> (nat \<Rightarrow> store \<Rightarrow> store) \<Rightarrow> nat \<Rightarrow> string \<Rightarrow> string \<Rightarrow> string option \<Rightarrow> store
     \<Rightarrow> (error + user) \<times> store" where
  "register_retrying 0 others newId mail code refCode st =
     register (others 0) newId mail code refCode st"
| "register_retrying (Suc n) others newId mail code refCode st =
     (case register (others (Suc n)) newId mail code refCode st of
        (Inl DuplicateKey, st') \<Rightarrow> register_retrying n others newId mail code refCode st'
      | (Inl e, st') \<Rightarrow> (Inl e, st')
      | (Inr u, st') \<Rightarrow> (Inr u, st'))"

section \<open>Services\<close>

datatype ServiceStatus = Active | Inactive

text \<open>
  A service document as the \<^verbatim>\<open>pre("validate")\<close> hook sees it. \<open>None\<close> is a field
  that is \<^verbatim>\<open>null\<close> or \<^verbatim>\<open>undefined\<close>; numbers are only copied and compared with 0.
\<close>

record service =
  name :: "string option"
  price :: "rat option"
  businessVolume :: "rat option"
  bv :: "rat option"
  status :: "ServiceStatus option"
  isActive :: "bool option"

text \<open>
  A field as it is handed to the model: left out (\<^verbatim>\<open>undefined\<close>), \<^verbatim>\<open>null\<close>, or a
  value. The difference matters for \<^verbatim>\<open>status\<close> only, the one field with a usable
  default; for the others \<open>None\<close> stands for both. A status string outside the enum is
  not modelled.
\<close>

datatype 'a field = Absent | Null | Given 'a

record service_fields =
  given_name :: "string option"
  given_price :: "rat option"
  given_businessVolume :: "rat option"
  given_bv :: "rat option"
  given_status :: "ServiceStatus field"
  given_isActive :: "bool option"

text \<open>
  \<^verbatim>\<open>String.prototype.trim\<close>, on characters below 256: tab, line feed, vertical tab,
  form feed, carriage return, space and no-break space are removed at both ends.
\<close>

definition is_space :: "char \<Rightarrow> bool" where
  "is_space c = (of_char c \<in> {9, 10, 11, 12, 13, 32, 160 :: nat})"

definition trim :: "string \<Rightarrow> string" where
  "trim s = rev (dropWhile is_space (rev (dropWhile is_space s)))"

text \<open>
  The document that \<^verbatim>\<open>new ServiceModel(fields)\<close> builds, before any hook runs: the
  setter of \<^verbatim>\<open>name\<close> trims it (\<^verbatim>\<open>trim: true\<close>), and a status that was left out
  gets the schema's \<^verbatim>\<open>default: "active"\<close>; a \<^verbatim>\<open>null\<close> status stays \<^verbatim>\<open>null\<close>. The
  default of \<^verbatim>\<open>isActive\<close> is \<^verbatim>\<open>undefined\<close>.
\<close>

definition construct :: "service_fields \<Rightarrow> service" where
  "construct f =
     \<lparr>name = map_option trim (given_name f),
      price = given_price f,
      businessVolume = given_businessVolume f,
      bv = given_bv f,
      status = (case given_status f of Absent \<Rightarrow> Some Active | Null \<Rightarrow> None | Given s \<Rightarrow> Some s),
      isActive = given_isActive f\<rparr>"

definition syncLegacyFields :: "service \<Rightarrow> service" where
  "syncLegacyFields doc =
     (let d1 = (if businessVolume doc = None \<and> service.bv doc \<noteq> None
                then doc\<lparr>businessVolume := service.bv doc\<rparr> else doc);
          d2 = (case service.isActive d1 of
                  Some b \<Rightarrow>
                    if status d1 = None
                    then d1\<lparr>status := Some (if b then Active else Inactive)\<rparr> else d1
                | None \<Rightarrow> d1);
          d3 = (if businessVolume d2 \<noteq> None
                then d2\<lparr>service.bv := businessVolume d2\<rparr> else d2)
      in (case status d3 of
            Some s \<Rightarrow> d3\<lparr>service.isActive := Some (s = Active)\<rparr>
          | None \<Rightarrow> d3))"

text \<open>
  The schema's validators: \<^verbatim>\<open>name\<close>, \<^verbatim>\<open>price\<close> and \<^verbatim>\<open>businessVolume\<close> are
  required (a string that is empty fails \<^verbatim>\<open>required\<close>), the three numbers have
  \<^verbatim>\<open>min: 0\<close>; \<^verbatim>\<open>status\<close> is not required and its enum is the type
  \<open>ServiceStatus\<close>.
\<close>

definition validate :: "service \<Rightarrow> bool" where
  "validate doc =
     ((case name doc of None \<Rightarrow> False | Some n \<Rightarrow> n \<noteq> [])
      \<and> (case price doc of None \<Rightarrow> False | Some p \<Rightarrow> 0 \<le> p)
      \<and> (case businessVolume doc of None \<Rightarrow> False | Some b \<Rightarrow> 0 \<le> b)
      \<and> (case service.bv doc of None \<Rightarrow> True | Some b \<Rightarrow> 0 \<le> b))"

text \<open>
  Validation of a new document: the model builds the document, the hook runs, then the
  validators.
\<close>

definition validated :: "service_fields \<Rightarrow> service option" where
  "validated f =
     (let d = syncLegacyFields (construct f) in if validate d then Some d else None)"

section \<open>Distribution rules\<close>

record rule =
  rid :: nat
  basePercentage :: rat
  decayEnabled :: bool
  isActive :: bool

datatype rule_error = BadRequest | NotFound

text \<open>
  The zod schema of \<^verbatim>\<open>basePercentage\<close>: a number that is at least 0, divided by 100
  when above 1, and then required to lie in [0, 1].
\<close>

definition parse_basePercentage :: "rat \<Rightarrow> rat option" where
  "parse_basePercentage v =
     (if v < 0 then None
      else (let w = (if v > 1 then v / 100 else v)
            in if 0 \<le> w \<and> w \<le> 1 then Some w else None))"

text \<open>\<^verbatim>\<open>updateMany({isActive: true}, {$set: {isActive: false}})\<close>\<close>

definition deactivate_all :: "rule list \<Rightarrow> rule list" where
  "deactivate_all rs = map (\<lambda>r. if rule.isActive r then r\<lparr>rule.isActive := False\<rparr> else r) rs"

text \<open>\<^verbatim>\<open>POST /api/admin/rules\<close>; \<open>newId\<close> is the id of the created document.\<close>

definition rules_POST ::
  "nat \<Rightarrow> rat \<Rightarrow> bool \<Rightarrow> bool option \<Rightarrow> rule list \<Rightarrow> (rule_error + rule) \<times> rule list" where
  "rules_POST newId bp decay active rs =
     (case parse_basePercentage bp of
        None \<Rightarrow> (Inl BadRequest, rs)
      | Some p \<Rightarrow>
          (let isActive = (case active of None \<Rightarrow> True | Some b \<Rightarrow> b);
               rs1 = (if isActive then deactivate_all rs else rs);
               r = \<lparr>rid = newId, basePercentage = p, decayEnabled = decay,
                     rule.isActive = isActive\<rparr>
           in (Inr r, rs1 @ [r])))"

text \<open>
  \<^verbatim>\<open>PUT /api/admin/rules/:id\<close>: a body with no field is refused; with
  \<^verbatim>\<open>isActive === true\<close> every active rule is deactivated first; then
  \<^verbatim>\<open>findByIdAndUpdate\<close> sets the given fields on the rule, or the handler answers 404.
\<close>

definition apply_body :: "rat option \<Rightarrow> bool option \<Rightarrow> bool option \<Rightarrow> rule \<Rightarrow> rule" where
  "apply_body bp decay active r =
     (let r1 = (case bp of None \<Rightarrow> r | Some p \<Rightarrow> r\<lparr>basePercentage := p\<rparr>);
          r2 = (case decay of None \<Rightarrow> r1 | Some d \<Rightarrow> r1\<lparr>decayEnabled := d\<rparr>)
      in (case active of None \<Rightarrow> r2 | Some a \<Rightarrow> r2\<lparr>rule.isActive := a\<rparr>))"

definition rules_PUT ::
  "nat \<Rightarrow> rat option \<Rightarrow> bool option \<Rightarrow> bool option \<Rightarrow> rule list
     \<Rightarrow> (rule_error + rule) \<times> rule list" where
  "rules_PUT ident bp decay active rs =
     (case (case bp of
              None \<Rightarrow> Some None
            | Some v \<Rightarrow> (case parse_basePercentage v of None \<Rightarrow> None | Some w \<Rightarrow> Some (Some w)))
      of
        None \<Rightarrow> (Inl BadRequest, rs)
      | Some bp' \<Rightarrow>
          if bp = None \<and> decay = None \<and> active = None then (Inl BadRequest, rs)
          else
            (let rs1 = (if active = Some True then deactivate_all rs else rs)
             in case find (\<lambda>r. rid r = ident) rs1 of
                  None \<Rightarrow> (Inl NotFound, rs1)
                | Some r \<Rightarrow>
                    (Inr (apply_body bp' decay active r),
                     update_first (\<lambda>r. rid r = ident) (apply_body bp' decay active) rs1)))"

text \<open>\<^verbatim>\<open>DELETE /api/admin/rules/:id\<close>\<close>

fun remove_first :: "('a \<Rightarrow> bool) \<Rightarrow> 'a list \<Rightarrow> 'a list" where
  "remove_first P [] = []"
| "remove_first P (x # xs) = (if P x then xs else x # remove_first P xs)"

definition rules_DELETE :: "nat \<Rightarrow> rule list \<Rightarrow> (rule_error + unit) \<times> rule list" where
  "rules_DELETE ident rs =
     (case find (\<lambda>r. rid r = ident) rs of
        None \<Rightarrow> (Inl NotFound, rs)
      | Some r \<Rightarrow> (Inr (), remove_first (\<lambda>r. rid r = ident) rs))"

datatype rule_request =
    Create nat rat bool "bool option"
  | Update nat "rat option" "bool option" "bool option"
  | Delete nat

fun rule_step :: "rule_request \<Rightarrow> rule list \<Rightarrow> rule list" where
  "rule_step (Create newId bp decay active) rs = snd (rules_POST newId bp decay active rs)"
| "rule_step (Update ident bp decay active) rs = snd (rules_PUT ident bp decay active rs)"
| "rule_step (Delete ident) rs = snd (rules_DELETE ident rs)"

fun rule_run :: "rule_request list \<Rightarrow> rule list \<Rightarrow> rule list" where
  "rule_run [] rs = rs"
| "rule_run (req # reqs) rs = rule_run reqs (rule_step req rs)"

text \<open>
  The activation the specification asks for (sections 3 and 4.3), for comparison:
  deactivating the active rules and marking the rule active are a single transaction, so
  an update that ends in an error has written nothing.
\<close>

definition rules_PUT_transaction ::
  "nat \<Rightarrow> rat option \<Rightarrow> bool option \<Rightarrow> bool option \<Rightarrow> rule list
     \<Rightarrow> (rule_error + rule) \<times> rule list" where
  "rules_PUT_transaction ident bp decay active rs =
     (case rules_PUT ident bp decay active rs of
        (Inl e, rs') \<Rightarrow> (Inl e, rs)
      | (Inr r, rs') \<Rightarrow> (Inr r, rs'))"

section \<open>Purchases and the distribution of business volume\<close>

record purchase =
  pid :: nat
  user :: nat
  service :: nat
  bv :: rat

record income =
  toUser :: nat
  fromUser :: nat
  purchase :: nat
  level :: nat
  amount :: rat
  percentage :: rat

record incomeLog =
  logToUser :: nat
  logPurchase :: nat
  incomeAmount :: rat

text \<open>The collections a purchase reads and writes.\<close>

record database =
  users :: "user list"
  rules :: "rule list"
  purchases :: "purchase list"
  incomes :: "income list"
  incomeLogs :: "incomeLog list"

text \<open>What \<^verbatim>\<open>distributeBusinessVolumeWithSession\<close> returns to the purchase handler.\<close>

record distribution =
  bv :: rat
  logsCreated :: nat
  levelsPaid :: nat

text \<open>
  The callback given to \<^verbatim>\<open>session.withTransaction\<close> by \<^verbatim>\<open>POST /api/purchases\<close>
  (the same in both servers): create the purchase with \<^verbatim>\<open>bv: 0\<close>, distribute, then
  write the distributed BV onto the purchase. The distribution function is a parameter
  \<open>distribute\<close>: it gets the transaction's view of the database and either throws
  (\<open>Inl\<close>) or returns its result and the database with its writes; \<open>None\<close> is a
  call that does not return. \<open>newId\<close> is the id of the created purchase.
\<close>

definition purchase_callback ::
  "(nat \<Rightarrow> nat \<Rightarrow> nat \<Rightarrow> database \<Rightarrow> ('e + distribution \<times> database) option)
     \<Rightarrow> nat \<Rightarrow> nat \<Rightarrow> nat \<Rightarrow> database
     \<Rightarrow> ('e + (nat \<times> rat \<times> nat \<times> nat) \<times> database) option" where
  "purchase_callback distribute userId serviceId newId db =
     (let db1 = db\<lparr>purchases := purchases db
                   @ [\<lparr>pid = newId, user = userId, service = serviceId, purchase.bv = 0\<rparr>]\<rparr>
      in case distribute userId serviceId newId db1 of
           None \<Rightarrow> None
         | Some (Inl e) \<Rightarrow> Some (Inl e)
         | Some (Inr (d, db2)) \<Rightarrow>
             Some (Inr ((newId, distribution.bv d, logsCreated d, levelsPaid d),
                        db2\<lparr>purchases :=
                              update_first (\<lambda>p. pid p = newId)
                                (\<lambda>p. p\<lparr>purchase.bv := distribution.bv d\<rparr>) (purchases db2)\<rparr>)))"

text \<open>
  \<^verbatim>\<open>session.withTransaction(callback)\<close>: the callback's writes are committed when it
  returns and discarded when it throws; the error is passed on.
\<close>

definition withTransaction ::
  "(database \<Rightarrow> ('e + 'a \<times> database) option) \<Rightarrow> database \<Rightarrow> (('e + 'a) \<times> database) option" where
  "withTransaction callback db =
     (case callback db of
        None \<Rightarrow> None
      | Some (Inl e) \<Rightarrow> Some (Inl e, db)
      | Some (Inr (r, db')) \<Rightarrow> Some (Inr r, db'))"

definition POST_purchases ::
  "(nat \<Rightarrow> nat \<Rightarrow> nat \<Rightarrow> database \<Rightarrow> ('e + distribution \<times> database) option)
     \<Rightarrow> nat \<Rightarrow> nat \<Rightarrow> nat \<Rightarrow> database
     \<Rightarrow> (('e + (nat \<times> rat \<times> nat \<times> nat)) \<times> database) option" where
  "POST_purchases distribute userId serviceId newId db =
     withTransaction (purchase_callback distribute userId serviceId newId) db"

subsection \<open>The distribution engine\<close>

datatype dist_error = NoActiveRule | TransactionAborted

text \<open>
  Modelled from the spec: the percentage schedule of section 4.2; the source of
  \<^verbatim>\<open>lib/bvDistribution\<close> is missing. Level 1 receives the base percentage and every
  later level half of the level before it; with decay disabled every level receives the
  base percentage.
\<close>

fun halving :: "rat \<Rightarrow> nat \<Rightarrow> rat" where
  "halving base 0 = base"
| "halving base (Suc 0) = base"
| "halving base (Suc (Suc n)) = halving base (Suc n) / 2"

definition level_percentage :: "rule \<Rightarrow> nat \<Rightarrow> rat" where
  "level_percentage r lvl = (if decayEnabled r then halving (basePercentage r) lvl else basePercentage r)"

text \<open>
  Modelled from the spec: the walk of section 4.2; the source of
  \<^verbatim>\<open>lib/bvDistribution\<close> is missing. From the member \<open>cur\<close> the walk follows the parent
  reference to the ancestor at level \<open>lvl\<close>, with no depth limit. It ends at a root, or
  when the amount is not above the zero-rounding threshold \<open>thr\<close>; otherwise it writes one
  Income and one IncomeLog row and goes on. \<open>fails lvl\<close> says that the store rejects the
  write at that level, which aborts the walk. \<open>paid\<close> counts the levels paid.
\<close>

partial_function (option) walk ::
  "(nat \<Rightarrow> bool) \<Rightarrow> rat \<Rightarrow> rule \<Rightarrow> nat \<Rightarrow> rat \<Rightarrow> nat \<Rightarrow> nat \<Rightarrow> nat \<Rightarrow> nat \<Rightarrow> database
     \<Rightarrow> (dist_error + nat \<times> database) option" where
  "walk fails thr r purchaserId bvAmount purchaseId cur lvl paid db =
     (case parent_of (users db) cur of
        None \<Rightarrow> Some (Inr (paid, db))
      | Some ancestor \<Rightarrow>
          if bvAmount * level_percentage r lvl \<le> thr then Some (Inr (paid, db))
          else if fails lvl then Some (Inl TransactionAborted)
          else
            walk fails thr r purchaserId bvAmount purchaseId ancestor (Suc lvl) (Suc paid)
              (db\<lparr>incomes := incomes db
                      @ [\<lparr>toUser = ancestor, fromUser = purchaserId, purchase = purchaseId,
                           level = lvl, amount = bvAmount * level_percentage r lvl,
                           percentage = level_percentage r lvl\<rparr>],
                   incomeLogs := incomeLogs db
                      @ [\<lparr>logToUser = ancestor, logPurchase = purchaseId,
                           incomeAmount = bvAmount * level_percentage r lvl\<rparr>]\<rparr>))"

declare walk.simps [code]

text \<open>
  Modelled from the spec: \<^verbatim>\<open>Distribute(purchaserId, bvAmount, purchaseId, txn)\<close> of
  section 4.2; the source of \<^verbatim>\<open>lib/bvDistribution\<close> is missing. It reads the active
  rule, fails with \<open>NoActiveRule\<close> when there is none, walks the ancestors from level
  1, and returns the BV, the rows written and the levels paid.
\<close>

definition Distribute ::
  "(nat \<Rightarrow> bool) \<Rightarrow> rat \<Rightarrow> nat \<Rightarrow> rat \<Rightarrow> nat \<Rightarrow> database
     \<Rightarrow> (dist_error + distribution \<times> database) option" where
  "Distribute fails thr purchaserId bvAmount purchaseId db =
     (case find rule.isActive (rules db) of
        None \<Rightarrow> Some (Inl NoActiveRule)
      | Some r \<Rightarrow>
          (case walk fails thr r purchaserId bvAmount purchaseId purchaserId 1 0 db of
             None \<Rightarrow> None
           | Some (Inl e) \<Rightarrow> Some (Inl e)
           | Some (Inr (paid, db')) \<Rightarrow>
               Some (Inr (\<lparr>distribution.bv = bvAmount, logsCreated = paid, levelsPaid = paid\<rparr>, db'))))"

section \<open>Notions used in the statements\<close>

text \<open>
  The keys of the partial unique index, and the binary constraint it enforces: no two
  indexed documents share their (parent, position).
\<close>

definition index_keys :: "store \<Rightarrow> (nat option \<times> BinaryPosition option) list" where
  "index_keys st =
     map (\<lambda>u. (parent u, position u)) (filter (\<lambda>u. parent u \<noteq> None \<and> position u \<noteq> None) st)"

definition binary_ok :: "store \<Rightarrow> bool" where
  "binary_ok st = distinct (index_keys st)"

text \<open>What a backfill may change of a store: nothing but positions.\<close>

definition links :: "store \<Rightarrow> (nat \<times> string \<times> string \<times> nat option) list" where
  "links st = map (\<lambda>u. (uid u, email u, referralCode u, parent u)) st"

text \<open>
  The children of \<open>p\<close> as the placement search reads them: the ids of those without a
  position in creation order, whether a slot has a child, and the id the search keeps
  for a slot (the last child in it).
\<close>

definition unpositioned_children :: "store \<Rightarrow> nat \<Rightarrow> nat list" where
  "unpositioned_children st p = map uid (filter (\<lambda>u. parent u = Some p \<and> position u = None) st)"

definition occupied :: "store \<Rightarrow> nat \<Rightarrow> BinaryPosition \<Rightarrow> bool" where
  "occupied st p q = list_ex (\<lambda>u. parent u = Some p \<and> position u = Some q) st"

definition child_at :: "store \<Rightarrow> nat \<Rightarrow> BinaryPosition \<Rightarrow> nat option" where
  "child_at st p q =
     (if occupied st p q
      then Some (uid (last (filter (\<lambda>u. parent u = Some p \<and> position u = Some q) st)))
      else None)"

text \<open>The store with the position of member \<open>a\<close> set to \<open>q\<close>.\<close>

definition set_pos :: "nat \<Rightarrow> BinaryPosition \<Rightarrow> store \<Rightarrow> store" where
  "set_pos a q st = map (\<lambda>u. if uid u = a then u\<lparr>position := Some q\<rparr> else u) st"

text \<open>A backfill block whose write goes through.\<close>

definition fill ::
  "BinaryPosition \<Rightarrow> nat option \<Rightarrow> BinaryPosition set \<Rightarrow> nat list \<Rightarrow> store
     \<Rightarrow> nat option \<times> BinaryPosition set \<times> nat list \<times> store" where
  "fill q c P U st =
     (case U of
        [] \<Rightarrow> (c, P, U, st)
      | a # rest \<Rightarrow> if c = None then (Some a, insert q P, rest, set_pos a q st) else (c, P, U, st))"

text \<open>
  The invariant of the search loop in a store with distinct ids, for the search started at
  \<open>s\<close>: the visited ids are distinct, every id met is \<open>s\<close> or the id of a
  document, the queue is not empty before the first visit, and every visited member has
  two different children that are visited or queued.
\<close>

definition search_inv :: "nat \<Rightarrow> nat list \<Rightarrow> nat list \<Rightarrow> store \<Rightarrow> bool" where
  "search_inv s queue visited st \<longleftrightarrow>
     distinct (map uid st) \<and> distinct visited
     \<and> set queue \<union> set visited \<subseteq> insert s (uid ` set st)
     \<and> (queue = [] \<longrightarrow> visited \<noteq> [])
     \<and> (\<forall>x \<in> set visited. \<exists>l r. l \<noteq> r
            \<and> l \<in> set visited \<union> set queue \<and> r \<in> set visited \<union> set queue
            \<and> parent_of st l = Some x \<and> parent_of st r = Some x)"

text \<open>
  Level order below a sponsor. A node is full when both of its slots have a child;
  \<open>enqueued st p\<close> are the children the search enqueues for a full node \<open>p\<close>: the
  left child, the right child, then the children without a position in creation order;
  \<open>tree_level st s d\<close> lists the nodes \<open>d\<close> levels below \<open>s\<close> from left to right.
  In a \<open>positioned\<close> store every child has a position.
\<close>

definition positioned :: "store \<Rightarrow> bool" where
  "positioned st = list_all (\<lambda>u. parent u = None \<or> position u \<noteq> None) st"

definition full_node :: "store \<Rightarrow> nat \<Rightarrow> bool" where
  "full_node st p \<longleftrightarrow> occupied st p Left \<and> occupied st p Right"

definition enqueued :: "store \<Rightarrow> nat \<Rightarrow> nat list" where
  "enqueued st p =
     (case child_at st p Left of None \<Rightarrow> [] | Some l \<Rightarrow> [l]) @
     (case child_at st p Right of None \<Rightarrow> [] | Some r \<Rightarrow> [r]) @
     unpositioned_children st p"

fun tree_level :: "store \<Rightarrow> nat \<Rightarrow> nat \<Rightarrow> nat list" where
  "tree_level st s 0 = [s]"
| "tree_level st s (Suc d) = concat (map (enqueued st) (tree_level st s d))"

text \<open>
  The queue of the search against the queue of a search that would visit a node again
  each time it meets it: \<open>aligned S queue full_queue\<close> says that \<open>queue\<close> is
  \<open>full_queue\<close> without some entries that are in \<open>S\<close> or occur earlier in \<open>queue\<close>.
  \<open>level_queue st s V q\<close> says that \<open>q\<close> is the rest of a level of \<open>s\<close> followed by
  the children of the part of the level already passed, everything passed being in \<open>V\<close>.
\<close>

fun aligned :: "nat set \<Rightarrow> nat list \<Rightarrow> nat list \<Rightarrow> bool" where
  "aligned S queue [] = (queue = [])"
| "aligned S queue (y # ys) =
     ((\<exists>rest. queue = y # rest \<and> aligned (insert y S) rest ys) \<or> (y \<in> S \<and> aligned S queue ys))"

definition level_queue :: "store \<Rightarrow> nat \<Rightarrow> nat set \<Rightarrow> nat list \<Rightarrow> bool" where
  "level_queue st s V q \<longleftrightarrow>
     (\<exists>d pre post. tree_level st s d = pre @ post
        \<and> q = post @ concat (map (enqueued st) pre)
        \<and> (\<forall>d' < d. set (tree_level st s d') \<subseteq> V)
        \<and> set pre \<subseteq> V)"

text \<open>
  The state of the search after \<open>n\<close> iterations of the loop from a state (queue, visited
  set, store), or the outcome if the loop has ended by then.
\<close>

fun iterate ::
  "nat \<Rightarrow> nat list \<times> nat list \<times> store \<Rightarrow> (nat list \<times> nat list \<times> store) + outcome" where
  "iterate 0 s = Inl s"
| "iterate (Suc n) (queue, visited, st) =
     (case loop_body queue visited st of
        Inr out \<Rightarrow> Inr out
      | Inl s' \<Rightarrow> iterate n s')"

text \<open>
  The ancestor of a member \<open>k\<close> levels up, along the parent references: the member that
  the walk of a distribution reaches at level \<open>k\<close>.
\<close>

fun ancestor_at :: "user list \<Rightarrow> nat \<Rightarrow> nat \<Rightarrow> nat option" where
  "ancestor_at us m 0 = Some m"
| "ancestor_at us m (Suc k) =
     (case parent_of us m of None \<Rightarrow> None | Some p \<Rightarrow> ancestor_at us p k)"

section \<open>Example data\<close>

text \<open>A member with no e-mail and no referral code, for the examples.\<close>

definition member :: "nat \<Rightarrow> nat option \<Rightarrow> BinaryPosition option \<Rightarrow> user" where
  "member i p q = \<lparr>uid = i, email = [], referralCode = [], parent = p, position = q\<rparr>"

text \<open>A purchaser, member 6, below a chain of five ancestors, under the decaying 10% rule.\<close>

definition chain_db :: database where
  "chain_db =
     \<lparr>users = [member 1 None None, member 2 (Some 1) (Some Left), member 3 (Some 2) (Some Left),
               member 4 (Some 3) (Some Left), member 5 (Some 4) (Some Left),
               member 6 (Some 5) (Some Left)],
      rules = [\<lparr>rid = 1, basePercentage = 1 / 10, decayEnabled = True, rule.isActive = True\<rparr>],
      purchases = [], incomes = [], incomeLogs = []\<rparr>"

text \<open>
  A purchaser, member 7, below a chain of six ancestors, under a 10% rule with decay on
  or off.
\<close>

definition six_db :: "bool \<Rightarrow> database" where
  "six_db decay =
     \<lparr>users = [member 1 None None, member 2 (Some 1) (Some Left), member 3 (Some 2) (Some Left),
               member 4 (Some 3) (Some Left), member 5 (Some 4) (Some Left),
               member 6 (Some 5) (Some Left), member 7 (Some 6) (Some Left)],
      rules = [\<lparr>rid = 1, basePercentage = 1 / 10, decayEnabled = decay, rule.isActive = True\<rparr>],
      purchases = [], incomes = [], incomeLogs = []\<rparr>"

text \<open>A sponsor with three legacy children that have no position.\<close>

definition legacy_store :: store where
  "legacy_store =
     [member 10 None None, member 11 (Some 10) None, member 12 (Some 10) None,
      member 13 (Some 10) None]"

text \<open>
  A sponsor, member 10 with referral code S, and the write of a concurrent registration
  that takes the sponsor's left slot.
\<close>

definition race_store :: store where
  "race_store = [\<lparr>uid = 10, email = ''s@x'', referralCode = ''S'', parent = None, position = None\<rparr>]"

definition rival :: "store \<Rightarrow> store" where
  "rival st = st @ [\<lparr>uid = 19, email = ''r@x'', referralCode = ''R'', parent = Some 10,
                      position = Some Left\<rparr>]"

text \<open>
  A malformed store: members 11 and 12 are each other's parent, and both slots of 11, 12
  and 13 are taken.
\<close>

definition cyclic_store :: store where
  "cyclic_store =
     [member 11 (Some 12) (Some Left), member 12 (Some 11) (Some Left),
      member 13 (Some 11) (Some Right), member 14 (Some 12) (Some Right),
      member 15 (Some 13) (Some Left), member 16 (Some 13) (Some Right)]"

text \<open>
  A sponsor, member 10, with both slots taken; its left child 11 has only a right child,
  its right child 12 only a left child.
\<close>

definition family_store :: store where
  "family_store =
     [member 10 None None, member 11 (Some 10) (Some Left), member 12 (Some 10) (Some Right),
      member 13 (Some 11) (Some Right), member 14 (Some 12) (Some Left)]"

section \<open>Atomicity of a purchase\<close>

text \<open>
  The transaction of the purchase handler: when the distribution throws, the handler
  passes the error on and the database is the one before the request.
\<close>

lemma POST_purchases_abort:
  assumes "distribute userId serviceId newId
             (db\<lparr>purchases := purchases db
                   @ [\<lparr>pid = newId, user = userId, service = serviceId, purchase.bv = 0\<rparr>]\<rparr>)
           = Some (Inl e)"
  shows "POST_purchases distribute userId serviceId newId db = Some (Inl e, db)"
  using assms by (simp add: POST_purchases_def withTransaction_def purchase_callback_def)

text \<open>
  The walk throws as soon as a write is rejected. If the member \<open>cur\<close> has an ancestor
  \<open>n + 1\<close> levels up, the amounts of the levels up to that one are above the threshold
  and the write for that ancestor fails, the walk from \<open>cur\<close> ends in the error, whatever
  it has written before.
\<close>

lemma walk_aborts:
  assumes "ancestor_at (users db) cur (Suc n) = Some a"
    and "\<forall>j \<le> n. thr < bvAmount * level_percentage r (lvl + j)"
    and "fails (lvl + n)"
  shows "walk fails thr r purchaserId bvAmount purchaseId cur lvl paid db
           = Some (Inl TransactionAborted)"
  using assms
proof (induction n arbitrary: cur lvl paid db)
  case 0
  from "0.prems"(1) obtain p where p: "parent_of (users db) cur = Some p"
    by (auto split: option.splits)
  from "0.prems"(2) have "\<not> bvAmount * level_percentage r lvl \<le> thr" by simp
  with p "0.prems"(3) show ?case by (subst walk.simps) simp
next
  case (Suc n)
  from Suc.prems(1) obtain p where p: "parent_of (users db) cur = Some p"
    and up: "ancestor_at (users db) p (Suc n) = Some a"
    by (auto split: option.splits)
  from Suc.prems(2) have above: "\<not> bvAmount * level_percentage r lvl \<le> thr"
    by (metis add.right_neutral le0 not_le)
  have rest: "\<forall>j \<le> n. thr < bvAmount * level_percentage r (Suc lvl + j)"
    using Suc.prems(2) by (metis Suc_le_mono add_Suc_shift)
  have fail: "fails (Suc lvl + n)" using Suc.prems(3) by simp
  show ?case
  proof (cases "fails lvl")
    case True
    with p above show ?thesis by (subst walk.simps) simp
  next
    case False
    let ?db = "db\<lparr>incomes := incomes db
                      @ [\<lparr>toUser = p, fromUser = purchaserId, purchase = purchaseId,
                           level = lvl, amount = bvAmount * level_percentage r lvl,
                           percentage = level_percentage r lvl\<rparr>],
                   incomeLogs := incomeLogs db
                      @ [\<lparr>logToUser = p, logPurchase = purchaseId,
                           incomeAmount = bvAmount * level_percentage r lvl\<rparr>]\<rparr>"
    have "ancestor_at (users ?db) p (Suc n) = Some a" using up by simp
    from Suc.IH [OF this rest fail]
    have "walk fails thr r purchaserId bvAmount purchaseId p (Suc lvl) (Suc paid) ?db
            = Some (Inl TransactionAborted)" .
    with p above False show ?thesis by (subst walk.simps) simp
  qed
qed

text \<open>
  C1. A purchase whose distribution walk meets a write failure leaves nothing behind.
  Take any database with an active rule and a purchaser who has an ancestor at level
  \<open>k\<close>, the amounts of the levels 1 to \<open>k\<close> being above the zero-rounding threshold,
  and let the write for the ancestor at level \<open>k\<close> fail. Then
  \<^verbatim>\<open>POST /api/purchases\<close> answers with the error of the aborted transaction and the
  database is the one before the request: the rows written for the levels below \<open>k\<close>
  are gone, no Income row of that purchase exists, and the purchase document, created
  with the placeholder BV, is gone with them.
\<close>

theorem purchase_atomic:
  assumes active: "find rule.isActive (rules db) = Some r"
    and ancestor: "ancestor_at (users db) userId k = Some a" "0 < k"
    and above: "\<forall>j. 1 \<le> j \<and> j \<le> k \<longrightarrow> thr < bvAmount * level_percentage r j"
    and failure: "fails k"
    and fresh: "\<forall>p \<in> set (purchases db). pid p \<noteq> newId"
      "\<forall>i \<in> set (incomes db). purchase i \<noteq> newId"
  shows "\<exists>db'. POST_purchases (\<lambda>u s p. Distribute fails thr u bvAmount p)
                 userId serviceId newId db = Some (Inl TransactionAborted, db')
             \<and> db' = db
             \<and> filter (\<lambda>i. purchase i = newId) (incomes db') = []
             \<and> find (\<lambda>p. pid p = newId) (purchases db') = None"
proof -
  let ?db = "db\<lparr>purchases := purchases db
                 @ [\<lparr>pid = newId, user = userId, service = serviceId, purchase.bv = 0\<rparr>]\<rparr>"
  from ancestor(2) obtain n where k: "k = Suc n" by (cases k) simp_all
  have 1: "ancestor_at (users ?db) userId (Suc n) = Some a"
    using ancestor(1) k by simp
  have 2: "\<forall>j \<le> n. thr < bvAmount * level_percentage r (1 + j)"
    using above k by simp
  have 3: "fails (1 + n)" using failure k by simp
  have "walk fails thr r userId bvAmount newId userId 1 0 ?db = Some (Inl TransactionAborted)"
    by (rule walk_aborts [where fails = fails and lvl = 1 and n = n, OF 1 2 3])
  then have "Distribute fails thr userId bvAmount newId ?db = Some (Inl TransactionAborted)"
    using active by (simp add: Distribute_def)
  then have "POST_purchases (\<lambda>u s p. Distribute fails thr u bvAmount p)
                 userId serviceId newId db = Some (Inl TransactionAborted, db)"
    by (rule POST_purchases_abort)
  moreover have "filter (\<lambda>i. purchase i = newId) (incomes db) = []"
    using fresh(2) by (simp add: filter_empty_conv)
  moreover have "find (\<lambda>p. pid p = newId) (purchases db) = None"
    using fresh(1) by (simp add: find_None_iff)
  ultimately show ?thesis by simp
qed

text \<open>
  The example of the specification: five ancestors, the write for the third one fails.
\<close>

theorem purchase_atomic_witness:
  "POST_purchases (\<lambda>u s p. Distribute (\<lambda>l. l = 3) 0 u 100 p) 6 9 7 chain_db
     = Some (Inl TransactionAborted, chain_db)
   \<and> filter (\<lambda>i. purchase i = 7) (incomes chain_db) = []
   \<and> find (\<lambda>p. pid p = 7) (purchases chain_db) = None"
proof -
  have r: "find rule.isActive (rules chain_db)
             = Some \<lparr>rid = 1, basePercentage = 1 / 10, decayEnabled = True, rule.isActive = True\<rparr>"
    by (simp add: chain_db_def)
  have a: "ancestor_at (users chain_db) 6 3 = Some 3"
    by (simp add: chain_db_def member_def parent_of_def numeral_3_eq_3)
  have k: "0 < (3::nat)" by simp
  have t: "\<forall>j. 1 \<le> j \<and> j \<le> 3 \<longrightarrow>
             (0::rat) < 100 * level_percentage
               \<lparr>rid = 1, basePercentage = 1 / 10, decayEnabled = True, rule.isActive = True\<rparr> j"
  proof (intro allI impI)
    fix j :: nat
    assume "1 \<le> j \<and> j \<le> 3"
    then have "j = 1 \<or> j = 2 \<or> j = 3" by arith
    then show "(0::rat) < 100 * level_percentage
               \<lparr>rid = 1, basePercentage = 1 / 10, decayEnabled = True, rule.isActive = True\<rparr> j"
      by (auto simp: level_percentage_def numeral_2_eq_2 numeral_3_eq_3)
  qed
  have f: "(\<lambda>l. l = 3) (3::nat)" by simp
  have p: "\<forall>p \<in> set (purchases chain_db). pid p \<noteq> 7"
    and i: "\<forall>i \<in> set (incomes chain_db). purchase i \<noteq> 7"
    by (simp_all add: chain_db_def)
  from purchase_atomic [where fails = "\<lambda>l. l = 3" and k = 3 and serviceId = 9,
                        OF r a k t f p i]
  show ?thesis by auto
qed


section \<open>The percentage schedule\<close>

text \<open>
  C2. Under an active rule with base percentage 0.10 and a purchaser with exactly six
  ancestors, the distribution (no write failing) is as follows. With decay enabled and
  all six amounts above the zero-rounding threshold, it pays the levels 1 to 6 the
  amounts BV\<times>0.10, BV\<times>0.05, BV\<times>0.025, BV\<times>0.0125, BV\<times>0.00625 and BV\<times>0.003125,
  each level half of the one before; the Income rows of the purchase sum to BV times the
  sum of the schedule, and \<open>levelsPaid\<close> is 6. With decay disabled every level is paid
  the flat BV\<times>0.10.
\<close>

theorem six_level_schedule:
  assumes active: "find rule.isActive (rules db) = Some r"
    and base: "basePercentage r = 1 / 10"
    and chain: "parent_of (users db) m = Some a1" "parent_of (users db) a1 = Some a2"
      "parent_of (users db) a2 = Some a3" "parent_of (users db) a3 = Some a4"
      "parent_of (users db) a4 = Some a5" "parent_of (users db) a5 = Some a6"
      "parent_of (users db) a6 = None"
    and fresh: "\<forall>i \<in> set (incomes db). purchase i \<noteq> p"
  shows "(decayEnabled r \<and> (\<forall>k<6. thr < bvAmount * (1 / (10 * 2 ^ k))) \<longrightarrow>
           (\<exists>db'. Distribute (\<lambda>l. False) thr m bvAmount p db
                    = Some (Inr (\<lparr>distribution.bv = bvAmount, logsCreated = 6, levelsPaid = 6\<rparr>, db'))
              \<and> incomes db' = incomes db @
                   map (\<lambda>(a, l, q). \<lparr>toUser = a, fromUser = m, purchase = p, level = l,
                                     amount = bvAmount * q, percentage = q\<rparr>)
                     [(a1, 1, 1 / 10), (a2, 2, 1 / 20), (a3, 3, 1 / 40),
                      (a4, 4, 1 / 80), (a5, 5, 1 / 160), (a6, 6, 1 / 320)]
              \<and> sum_list (map amount (filter (\<lambda>i. purchase i = p) (incomes db')))
                   = bvAmount * (1 / 10 + 1 / 20 + 1 / 40 + 1 / 80 + 1 / 160 + 1 / 320)))
       \<and> (\<not> decayEnabled r \<and> thr < bvAmount * (1 / 10) \<longrightarrow>
           (\<exists>db'. Distribute (\<lambda>l. False) thr m bvAmount p db
                    = Some (Inr (\<lparr>distribution.bv = bvAmount, logsCreated = 6, levelsPaid = 6\<rparr>, db'))
              \<and> incomes db' = incomes db @
                   map (\<lambda>(a, l). \<lparr>toUser = a, fromUser = m, purchase = p, level = l,
                                  amount = bvAmount * (1 / 10), percentage = 1 / 10\<rparr>)
                     [(a1, 1), (a2, 2), (a3, 3), (a4, 4), (a5, 5), (a6, 6)]))"
proof (intro conjI impI)
  assume d: "decayEnabled r \<and> (\<forall>k<6. thr < bvAmount * (1 / (10 * 2 ^ k)))"
  have f0: "(0::nat) < 6" and f1: "(1::nat) < 6" and f2: "(2::nat) < 6"
    and f3: "(3::nat) < 6" and f4: "(4::nat) < 6" and f5: "(5::nat) < 6" by simp_all
  have t: "thr < bvAmount / 10" "thr < bvAmount / 20" "thr < bvAmount / 40"
    "thr < bvAmount / 80" "thr < bvAmount / 160" "thr < bvAmount / 320"
    using d [THEN conjunct2, rule_format, OF f0] d [THEN conjunct2, rule_format, OF f1]
      d [THEN conjunct2, rule_format, OF f2] d [THEN conjunct2, rule_format, OF f3]
      d [THEN conjunct2, rule_format, OF f4] d [THEN conjunct2, rule_format, OF f5]
    by simp_all
  have filt: "filter (\<lambda>i. purchase i = p) (incomes db) = []"
    using fresh by (simp add: filter_empty_conv)
  have "Distribute (\<lambda>l. False) thr m bvAmount p db
          = Some (Inr (\<lparr>distribution.bv = bvAmount, logsCreated = 6, levelsPaid = 6\<rparr>,
               db\<lparr>incomes := incomes db @
                   map (\<lambda>(a, l, q). \<lparr>toUser = a, fromUser = m, purchase = p, level = l,
                                     amount = bvAmount * q, percentage = q\<rparr>)
                     [(a1, 1, 1 / 10), (a2, 2, 1 / 20), (a3, 3, 1 / 40),
                      (a4, 4, 1 / 80), (a5, 5, 1 / 160), (a6, 6, 1 / 320)],
                  incomeLogs := incomeLogs db @
                   map (\<lambda>(a, q). \<lparr>logToUser = a, logPurchase = p, incomeAmount = bvAmount * q\<rparr>)
                     [(a1, 1 / 10), (a2, 1 / 20), (a3, 1 / 40),
                      (a4, 1 / 80), (a5, 1 / 160), (a6, 1 / 320)]\<rparr>))"
    using t unfolding Distribute_def
    apply (simp add: active)
    apply (subst walk.simps, simp add: chain base d level_percentage_def)
    apply (subst walk.simps, simp add: chain base d level_percentage_def)
    apply (subst walk.simps, simp add: chain base d level_percentage_def)
    apply (subst walk.simps, simp add: chain base d level_percentage_def)
    apply (subst walk.simps, simp add: chain base d level_percentage_def)
    apply (subst walk.simps, simp add: chain base d level_percentage_def)
    apply (subst walk.simps, simp add: chain base d level_percentage_def)
    done
  then show "\<exists>db'. Distribute (\<lambda>l. False) thr m bvAmount p db
                    = Some (Inr (\<lparr>distribution.bv = bvAmount, logsCreated = 6, levelsPaid = 6\<rparr>, db'))
              \<and> incomes db' = incomes db @
                   map (\<lambda>(a, l, q). \<lparr>toUser = a, fromUser = m, purchase = p, level = l,
                                     amount = bvAmount * q, percentage = q\<rparr>)
                     [(a1, 1, 1 / 10), (a2, 2, 1 / 20), (a3, 3, 1 / 40),
                      (a4, 4, 1 / 80), (a5, 5, 1 / 160), (a6, 6, 1 / 320)]
              \<and> sum_list (map amount (filter (\<lambda>i. purchase i = p) (incomes db')))
                   = bvAmount * (1 / 10 + 1 / 20 + 1 / 40 + 1 / 80 + 1 / 160 + 1 / 320)"
    by (simp add: filt algebra_simps)
next
  assume d: "\<not> decayEnabled r \<and> thr < bvAmount * (1 / 10)"
  then have t: "thr < bvAmount / 10" by simp
  have "Distribute (\<lambda>l. False) thr m bvAmount p db
          = Some (Inr (\<lparr>distribution.bv = bvAmount, logsCreated = 6, levelsPaid = 6\<rparr>,
               db\<lparr>incomes := incomes db @
                   map (\<lambda>(a, l). \<lparr>toUser = a, fromUser = m, purchase = p, level = l,
                                  amount = bvAmount * (1 / 10), percentage = 1 / 10\<rparr>)
                     [(a1, 1), (a2, 2), (a3, 3), (a4, 4), (a5, 5), (a6, 6)],
                  incomeLogs := incomeLogs db @
                   map (\<lambda>a. \<lparr>logToUser = a, logPurchase = p, incomeAmount = bvAmount * (1 / 10)\<rparr>)
                     [a1, a2, a3, a4, a5, a6]\<rparr>))"
    using t unfolding Distribute_def
    apply (simp add: active)
    apply (subst walk.simps, simp add: chain base d level_percentage_def)
    apply (subst walk.simps, simp add: chain base d level_percentage_def)
    apply (subst walk.simps, simp add: chain base d level_percentage_def)
    apply (subst walk.simps, simp add: chain base d level_percentage_def)
    apply (subst walk.simps, simp add: chain base d level_percentage_def)
    apply (subst walk.simps, simp add: chain base d level_percentage_def)
    apply (subst walk.simps, simp add: chain base d level_percentage_def)
    done
  then show "\<exists>db'. Distribute (\<lambda>l. False) thr m bvAmount p db
                    = Some (Inr (\<lparr>distribution.bv = bvAmount, logsCreated = 6, levelsPaid = 6\<rparr>, db'))
              \<and> incomes db' = incomes db @
                   map (\<lambda>(a, l). \<lparr>toUser = a, fromUser = m, purchase = p, level = l,
                                  amount = bvAmount * (1 / 10), percentage = 1 / 10\<rparr>)
                     [(a1, 1), (a2, 2), (a3, 3), (a4, 4), (a5, 5), (a6, 6)]"
    by simp
qed

theorem six_level_schedule_witness:
  "(\<exists>db'. Distribute (\<lambda>l. False) 0 7 320 9 (six_db True)
            = Some (Inr (\<lparr>distribution.bv = 320, logsCreated = 6, levelsPaid = 6\<rparr>, db'))
        \<and> map (\<lambda>i. (toUser i, level i, amount i)) (incomes db')
            = [(6, 1, 32), (5, 2, 16), (4, 3, 8), (3, 4, 4), (2, 5, 2), (1, 6, 1)]
        \<and> sum_list (map amount (filter (\<lambda>i. purchase i = 9) (incomes db'))) = 63)
   \<and> (\<exists>db'. Distribute (\<lambda>l. False) 0 7 320 9 (six_db False)
            = Some (Inr (\<lparr>distribution.bv = 320, logsCreated = 6, levelsPaid = 6\<rparr>, db'))
        \<and> map (\<lambda>i. (toUser i, level i, amount i)) (incomes db')
            = [(6, 1, 32), (5, 2, 32), (4, 3, 32), (3, 4, 32), (2, 5, 32), (1, 6, 32)])"
proof -
  let ?r = "\<lambda>decay. \<lparr>rid = 1, basePercentage = 1 / 10, decayEnabled = decay, rule.isActive = True\<rparr>"
  have active: "find rule.isActive (rules (six_db decay)) = Some (?r decay)" for decay
    by (simp add: six_db_def)
  have base: "basePercentage (?r decay) = 1 / 10" for decay
    by simp
  have chain: "parent_of (users (six_db decay)) 7 = Some 6"
    "parent_of (users (six_db decay)) 6 = Some 5" "parent_of (users (six_db decay)) 5 = Some 4"
    "parent_of (users (six_db decay)) 4 = Some 3" "parent_of (users (six_db decay)) 3 = Some 2"
    "parent_of (users (six_db decay)) 2 = Some 1" "parent_of (users (six_db decay)) 1 = None"
    for decay
    by (simp_all add: six_db_def parent_of_def member_def)
  have fresh: "\<forall>i \<in> set (incomes (six_db decay)). purchase i \<noteq> 9" for decay
    by (simp add: six_db_def)
  have pos: "\<forall>k<6. (0::rat) < 320 * (1 / (10 * 2 ^ k))"
    by simp
  from six_level_schedule [OF active base chain fresh, of True 0 320]
       six_level_schedule [OF active base chain fresh, of False 0 320] pos
  show ?thesis
    by (auto simp: six_db_def)
qed

section \<open>The active distribution rule\<close>

lemma filter_deactivate_all: "filter rule.isActive (deactivate_all rs) = []"
  by (induction rs) (auto simp: deactivate_all_def)

lemma filter_update_first_le:
  assumes "\<And>x. Q (f x) \<Longrightarrow> Q x"
  shows "length (filter Q (update_first P f xs)) \<le> length (filter Q xs)"
  using assms by (induction xs) auto

lemma filter_update_first_single:
  assumes "filter Q xs = []" and "find P xs = Some x" and "Q (f x)"
  shows "filter Q (update_first P f xs) = [f x]"
  using assms by (induction xs) (auto split: if_splits)

lemma filter_remove_first_le:
  "length (filter Q (remove_first P xs)) \<le> length (filter Q xs)"
  by (induction xs) auto

lemma apply_body_active [simp]:
  "rule.isActive (apply_body bp decay active r) = (case active of None \<Rightarrow> rule.isActive r | Some a \<Rightarrow> a)"
  by (simp add: apply_body_def Let_def split: option.splits)

lemma rules_POST_count:
  assumes "length (filter rule.isActive rs) \<le> 1"
  shows "length (filter rule.isActive (snd (rules_POST newId bp decay active rs))) \<le> 1"
  using assms
  by (auto simp: rules_POST_def Let_def filter_deactivate_all split: option.splits)

lemma rules_PUT_count:
  assumes "length (filter rule.isActive rs) \<le> 1"
  shows "length (filter rule.isActive (snd (rules_PUT ident bp decay active rs))) \<le> 1"
proof (cases "active = Some True")
  case True
  show ?thesis
  proof (cases "find (\<lambda>r. rid r = ident) (deactivate_all rs)")
    case None
    with True assms show ?thesis
      by (auto simp: rules_PUT_def Let_def filter_deactivate_all split: option.splits)
  next
    case (Some r0)
    have "filter rule.isActive
            (update_first (\<lambda>r. rid r = ident) (apply_body b decay (Some True)) (deactivate_all rs))
          = [apply_body b decay (Some True) r0]" for b
      using filter_update_first_single [OF filter_deactivate_all Some] by simp
    with True Some assms show ?thesis
      by (auto simp: rules_PUT_def Let_def split: option.splits)
  qed
next
  case False
  have "length (filter rule.isActive (update_first (\<lambda>r. rid r = ident) (apply_body b decay active) rs))
          \<le> length (filter rule.isActive rs)" for b
    using False by (intro filter_update_first_le) (auto split: option.splits)
  with False assms show ?thesis
    by (auto simp: rules_PUT_def Let_def split: option.splits intro: order_trans)
qed

lemma rules_DELETE_count:
  assumes "length (filter rule.isActive rs) \<le> 1"
  shows "length (filter rule.isActive (snd (rules_DELETE ident rs))) \<le> 1"
  using assms filter_remove_first_le [of rule.isActive "\<lambda>r. rid r = ident" rs]
  by (auto simp: rules_DELETE_def split: option.splits)

lemma rule_run_count:
  assumes "length (filter rule.isActive rs) \<le> 1"
  shows "length (filter rule.isActive (rule_run reqs rs)) \<le> 1"
  using assms
proof (induction reqs arbitrary: rs)
  case Nil
  then show ?case by simp
next
  case (Cons req reqs)
  have "length (filter rule.isActive (rule_step req rs)) \<le> 1"
    using Cons.prems rules_POST_count rules_PUT_count rules_DELETE_count
    by (cases req) (simp_all del: One_nat_def)
  then show ?case
    using Cons.IH by simp
qed

lemma rules_PUT_activate:
  assumes "rules_PUT ident bp decay (Some True) rs = (Inr r, rs')"
  shows "filter rule.isActive rs' = [r]"
proof -
  obtain b r0 where f: "find (\<lambda>r. rid r = ident) (deactivate_all rs) = Some r0"
    and r: "r = apply_body b decay (Some True) r0"
    and rs': "rs' = update_first (\<lambda>r. rid r = ident) (apply_body b decay (Some True)) (deactivate_all rs)"
    using assms by (auto simp: rules_PUT_def Let_def split: option.splits if_splits)
  show ?thesis
    unfolding r rs' using filter_update_first_single [OF filter_deactivate_all f] by simp
qed

lemma rules_POST_activate:
  assumes "rules_POST newId bp decay active rs = (Inr r, rs')" and "rule.isActive r"
  shows "filter rule.isActive rs' = [r]"
  using assms
  by (auto simp: rules_POST_def Let_def filter_deactivate_all split: option.splits if_splits)


text \<open>
  C4 as stated fails: the handlers open no transaction. The deactivation is a write of
  its own, issued before the rule is looked up, so an activating update of a rule that
  does not exist answers "Not found" and has deactivated the active rule all the same,
  where a transaction would have written nothing.
\<close>

theorem activation_not_transactional_counterexample:
  "rules_PUT 9 None None (Some True)
     [\<lparr>rid = 1, basePercentage = 1/10, decayEnabled = True, rule.isActive = True\<rparr>]
     = (Inl NotFound,
        [\<lparr>rid = 1, basePercentage = 1/10, decayEnabled = True, rule.isActive = False\<rparr>])
   \<and> rules_PUT_transaction 9 None None (Some True)
     [\<lparr>rid = 1, basePercentage = 1/10, decayEnabled = True, rule.isActive = True\<rparr>]
     = (Inl NotFound,
        [\<lparr>rid = 1, basePercentage = 1/10, decayEnabled = True, rule.isActive = True\<rparr>])"
  by (simp add: rules_PUT_transaction_def rules_PUT_def deactivate_all_def)

text \<open>
  C4, amended. Starting from a collection with at most one active rule, any sequence of
  create, update and delete requests, run one after the other, leaves at most one active
  rule. An update with \<^verbatim>\<open>isActive: true\<close> that finds its rule, and a create of an
  active rule, leave that rule as the only active one: the same request deactivates all
  the others, in a write of its own before the activating one.
\<close>

theorem at_most_one_active_rule:
  assumes "length (filter rule.isActive rs) \<le> 1"
  shows "length (filter rule.isActive (rule_run reqs rs)) \<le> 1
       \<and> (\<forall>ident bp decay r rs'.
             rules_PUT ident bp decay (Some True) (rule_run reqs rs) = (Inr r, rs')
               \<longrightarrow> filter rule.isActive rs' = [r])
       \<and> (\<forall>newId bp decay active r rs'.
             rules_POST newId bp decay active (rule_run reqs rs) = (Inr r, rs') \<and> rule.isActive r
               \<longrightarrow> filter rule.isActive rs' = [r])"
  using rule_run_count [OF assms] rules_PUT_activate rules_POST_activate by blast

theorem at_most_one_active_rule_witness:
  "length (filter rule.isActive []) \<le> 1
   \<and> length (filter rule.isActive
        (rule_run [Create 1 10 True None, Create 2 (1/20) False (Some False),
                   Update 2 None None (Some True), Delete 1] [])) \<le> 1
   \<and> rules_PUT 2 None None (Some True)
        (rule_run [Create 1 10 True None, Create 2 (1/20) False (Some False)] [])
      = (Inr \<lparr>rid = 2, basePercentage = 1/20, decayEnabled = False, rule.isActive = True\<rparr>,
         [\<lparr>rid = 1, basePercentage = 1/10, decayEnabled = True, rule.isActive = False\<rparr>,
          \<lparr>rid = 2, basePercentage = 1/20, decayEnabled = False, rule.isActive = True\<rparr>])
   \<and> filter rule.isActive
         [\<lparr>rid = 1, basePercentage = 1/10, decayEnabled = True, rule.isActive = False\<rparr>,
          \<lparr>rid = 2, basePercentage = 1/20, decayEnabled = False, rule.isActive = True\<rparr>]
      = [\<lparr>rid = 2, basePercentage = 1/20, decayEnabled = False, rule.isActive = True\<rparr>]"
proof -
  have h: "length (filter rule.isActive []) \<le> 1" by simp
  have e: "rules_PUT 2 None None (Some True)
        (rule_run [Create 1 10 True None, Create 2 (1/20) False (Some False)] [])
      = (Inr \<lparr>rid = 2, basePercentage = 1/20, decayEnabled = False, rule.isActive = True\<rparr>,
         [\<lparr>rid = 1, basePercentage = 1/10, decayEnabled = True, rule.isActive = False\<rparr>,
          \<lparr>rid = 2, basePercentage = 1/20, decayEnabled = False, rule.isActive = True\<rparr>])"
    by (simp add: rules_PUT_def rules_POST_def parse_basePercentage_def deactivate_all_def
                  apply_body_def Let_def)
  from at_most_one_active_rule [OF h, of "[Create 1 10 True None, Create 2 (1/20) False (Some False),
                   Update 2 None None (Some True), Delete 1]"]
    at_most_one_active_rule [OF h, of "[Create 1 10 True None, Create 2 (1/20) False (Some False)]"] e
  show ?thesis by simp
qed


section \<open>Legacy fields of a service\<close>

text \<open>
  What holds of every new document that passes validation: \<^verbatim>\<open>bv\<close> equals
  \<^verbatim>\<open>businessVolume\<close>, \<^verbatim>\<open>isActive\<close> is true exactly when the status is active, a
  missing \<^verbatim>\<open>businessVolume\<close> is copied from \<^verbatim>\<open>bv\<close>, and a \<^verbatim>\<open>null\<close> status is
  derived from a boolean \<^verbatim>\<open>isActive\<close>. A status that was left out is active, whatever
  \<^verbatim>\<open>isActive\<close> said.
\<close>

lemma validated_in_sync:
  assumes "validated f = Some d"
  shows "service.bv d = businessVolume d"
    and "service.isActive d = Some True \<longleftrightarrow> status d = Some Active"
    and "status d \<noteq> None \<Longrightarrow> service.isActive d = Some (status d = Some Active)"
    and "given_businessVolume f = None \<Longrightarrow> businessVolume d = given_bv f"
    and "given_status f = Null \<Longrightarrow> given_isActive f = Some b
           \<Longrightarrow> status d = Some (if b then Active else Inactive)"
    and "given_status f = Absent \<Longrightarrow> status d = Some Active \<and> service.isActive d = Some True"
  using assms
  by (auto simp: validated_def construct_def syncLegacyFields_def validate_def Let_def
           split: option.splits if_splits field.splits)

text \<open>
  C10. A service document that passes validation should have its legacy and canonical
  fields in step, the canonical ones backfilled from the legacy ones when only those are
  supplied. For the status the hook misses this: a document supplied with
  \<^verbatim>\<open>bv\<close> and \<^verbatim>\<open>isActive: false\<close> and without \<^verbatim>\<open>businessVolume\<close> and
  \<^verbatim>\<open>status\<close> passes validation with \<^verbatim>\<open>businessVolume\<close> copied from \<^verbatim>\<open>bv\<close>, but
  with status active and \<^verbatim>\<open>isActive\<close> turned to true. The schema default has filled
  the status in before the hook runs, so the hook's test \<^verbatim>\<open>!doc.status\<close> never sees a
  status that was left out. Only with an explicit \<^verbatim>\<open>status: null\<close> is the status
  derived from \<^verbatim>\<open>isActive\<close>.
\<close>

theorem legacy_status_overridden:
  "validated \<lparr>given_name = Some ''plan'', given_price = Some 10, given_businessVolume = None,
               given_bv = Some 5, given_status = Absent, given_isActive = Some False\<rparr>
     = Some \<lparr>name = Some ''plan'', price = Some 10, businessVolume = Some 5,
              service.bv = Some 5, status = Some Active, service.isActive = Some True\<rparr>
   \<and> validated \<lparr>given_name = Some ''plan'', given_price = Some 10, given_businessVolume = None,
               given_bv = Some 5, given_status = Null, given_isActive = Some False\<rparr>
     = Some \<lparr>name = Some ''plan'', price = Some 10, businessVolume = Some 5,
              service.bv = Some 5, status = Some Inactive, service.isActive = Some False\<rparr>"
  by (simp add: validated_def construct_def syncLegacyFields_def validate_def Let_def
                trim_def is_space_def)


section \<open>The placement search: writes and reads\<close>

subsection \<open>The index and the writes\<close>

lemma index_conflict_iff:
  "index_conflict st par pos \<longleftrightarrow> par \<noteq> None \<and> pos \<noteq> None \<and> (par, pos) \<in> set (index_keys st)"
  by (cases par; cases pos) (force simp: index_conflict_def index_keys_def list_ex_iff)+

lemma find_update_first:
  assumes "find P xs = Some x"
  shows "\<exists>ys zs. xs = ys @ x # zs \<and> (\<forall>y \<in> set ys. \<not> P y) \<and> P x
           \<and> update_first P f xs = ys @ f x # zs"
  using assms
proof (induction xs)
  case Nil
  then show ?case by simp
next
  case (Cons a xs)
  show ?case
  proof (cases "P a")
    case True
    with Cons.prems have "a = x" by simp
    with True show ?thesis by (intro exI [of _ "[]"] exI [of _ xs]) simp
  next
    case False
    with Cons obtain ys zs where "xs = ys @ x # zs" "\<forall>y \<in> set ys. \<not> P y" "P x"
      "update_first P f xs = ys @ f x # zs" by auto
    with False show ?thesis by (intro exI [of _ "a # ys"] exI [of _ zs]) simp
  qed
qed

lemma update_first_none:
  assumes "find P xs = None"
  shows "update_first P f xs = xs"
  using assms by (induction xs) (auto split: if_splits)

lemma links_update_first [simp]:
  "links (update_first P (\<lambda>u. u\<lparr>position := q\<rparr>) st) = links st"
  by (induction st) (auto simp: links_def)

lemma updateOne_links:
  "updateOne st t pos = Inr st' \<Longrightarrow> links st' = links st"
  by (auto simp: updateOne_def split: option.splits if_splits)

lemma updateOne_binary_ok:
  assumes "updateOne st t pos = Inr st'" and "binary_ok st"
  shows "binary_ok st'"
proof (cases "find (\<lambda>u. uid u = t \<and> position u = None) st")
  case None
  with assms show ?thesis by (simp add: updateOne_def)
next
  case (Some x)
  with assms have nc: "\<not> index_conflict st (parent x) (Some pos)"
    and st': "st' = update_first (\<lambda>u. uid u = t \<and> position u = None) (\<lambda>u. u\<lparr>position := Some pos\<rparr>) st"
    by (auto simp: updateOne_def split: if_splits)
  from find_update_first [OF Some] obtain ys zs where
    st: "st = ys @ x # zs" and x: "position x = None"
    and u: "update_first (\<lambda>u. uid u = t \<and> position u = None) (\<lambda>u. u\<lparr>position := Some pos\<rparr>) st
            = ys @ x\<lparr>position := Some pos\<rparr> # zs"
    by blast
  show ?thesis
  proof (cases "parent x")
    case None
    with assms(2) x show ?thesis
      unfolding st' u unfolding st by (simp add: binary_ok_def index_keys_def)
  next
    case (Some p)
    with nc have "(Some p, Some pos) \<notin> set (index_keys st)"
      by (simp add: index_conflict_iff)
    with assms(2) x Some show ?thesis
      unfolding st' u unfolding st by (auto simp: binary_ok_def index_keys_def)
  qed
qed

lemma backfill_links:
  "links (snd (backfill st pos c P U)) = links st"
  by (auto simp: backfill_def updateOne_links split: list.splits sum.splits)

lemma backfill_binary_ok:
  "binary_ok st \<Longrightarrow> binary_ok (snd (backfill st pos c P U))"
  by (auto simp: backfill_def updateOne_binary_ok split: list.splits sum.splits)

lemma visit_links: "links (snd (visit st p)) = links st"
proof -
  obtain P0 l0 r0 U0 where c: "classify (filter (\<lambda>u. parent u = Some p) st) {} None None [] = (P0, l0, r0, U0)"
    using prod_cases4 by blast
  obtain res1 st1 where b1: "backfill st Left l0 P0 U0 = (res1, st1)" by fastforce
  have l1: "links st1 = links st" using backfill_links [of st Left l0 P0 U0] b1 by simp
  show ?thesis
  proof (cases res1)
    case (Inl e)
    with c b1 l1 show ?thesis by (simp add: visit_def)
  next
    case (Inr t)
    obtain l1' P1 U1 where t: "t = (l1', P1, U1)" using prod_cases3 by blast
    have "links (snd (backfill st1 Right r0 P1 U1)) = links st"
      using backfill_links [of st1 Right r0 P1 U1] l1 by simp
    with c b1 Inr t show ?thesis
      by (auto simp: visit_def split: prod.splits sum.splits)
  qed
qed

lemma visit_binary_ok: "binary_ok st \<Longrightarrow> binary_ok (snd (visit st p))"
proof -
  assume ok: "binary_ok st"
  obtain P0 l0 r0 U0 where c: "classify (filter (\<lambda>u. parent u = Some p) st) {} None None [] = (P0, l0, r0, U0)"
    using prod_cases4 by blast
  obtain res1 st1 where b1: "backfill st Left l0 P0 U0 = (res1, st1)" by fastforce
  have l1: "binary_ok st1" using backfill_binary_ok [OF ok, of Left l0 P0 U0] b1 by simp
  show ?thesis
  proof (cases res1)
    case (Inl e)
    with c b1 l1 show ?thesis by (simp add: visit_def)
  next
    case (Inr t)
    obtain l1' P1 U1 where t: "t = (l1', P1, U1)" using prod_cases3 by blast
    have "binary_ok (snd (backfill st1 Right r0 P1 U1))"
      using backfill_binary_ok [OF l1] by simp
    with c b1 Inr t show ?thesis
      by (auto simp: visit_def split: prod.splits sum.splits)
  qed
qed

lemma loop_body_binary_ok:
  assumes "binary_ok st"
  shows "case loop_body q v st of Inl (q', v', st') \<Rightarrow> binary_ok st' | Inr (res, st') \<Rightarrow> binary_ok st'"
proof (cases q)
  case Nil
  with assms show ?thesis by (simp add: loop_body_def)
next
  case (Cons a rest)
  with assms visit_binary_ok [OF assms, of a] show ?thesis
    by (auto simp: loop_body_def split: prod.splits sum.splits option.splits)
qed

lemma bfs_binary_ok:
  "binary_ok st \<Longrightarrow> binary_ok (snd (bfs q v st))"
proof (induction q v st rule: bfs.induct)
  case (1 q v st)
  show ?case
  proof (cases "loop_body q v st")
    case (Inl a)
    obtain q' v' st' where a: "a = (q', v', st')" using prod_cases3 by blast
    have "binary_ok st'" using loop_body_binary_ok [OF "1.prems", of q v] Inl a by simp
    then have "binary_ok (snd (bfs q' v' st'))"
      using "1.IH" [OF Inl a [symmetric] refl] by simp
    with Inl a show ?thesis by (simp add: bfs.simps [of q v st])
  next
    case (Inr out)
    with loop_body_binary_ok [OF "1.prems", of q v] show ?thesis
      by (cases out) (simp add: bfs.simps [of q v st])
  qed
qed

subsection \<open>Reading the children\<close>

lemma classify_spec:
  "classify cs P l r U =
     (P \<union> {q. \<exists>c \<in> set cs. position c = Some q},
      (if \<exists>c \<in> set cs. position c = Some Left
       then Some (uid (last (filter (\<lambda>c. position c = Some Left) cs))) else l),
      (if \<exists>c \<in> set cs. position c = Some Right
       then Some (uid (last (filter (\<lambda>c. position c = Some Right) cs))) else r),
      U @ map uid (filter (\<lambda>c. position c = None) cs))"
proof (induction cs arbitrary: P l r U)
  case Nil
  then show ?case by simp
next
  case (Cons c cs)
  show ?case
  proof (cases "position c")
    case None
    then show ?thesis by (simp add: Cons.IH)
  next
    case (Some q)
    have e: "filter (\<lambda>c. position c = Some q') cs = [] \<longleftrightarrow> \<not> (\<exists>c \<in> set cs. position c = Some q')" for q'
      by (auto simp: filter_empty_conv)
    show ?thesis
      by (cases q) (auto simp: Some Cons.IH e)
  qed
qed

lemma distinct_uid_eq:
  assumes "distinct (map uid st)" and "x \<in> set st" and "y \<in> set st" and "uid x = uid y"
  shows "x = y"
  using assms by (meson distinct_map inj_onD)

lemma find_by_uid:
  assumes "distinct (map uid st)" and "x \<in> set st" and "Q x"
  shows "find (\<lambda>u. uid u = uid x \<and> Q u) st = Some x"
  using assms by (induction st) (auto simp: rev_image_eqI)

lemma update_first_by_uid:
  assumes "distinct (map uid st)" and "x \<in> set st" and "Q x"
  shows "update_first (\<lambda>u. uid u = uid x \<and> Q u) f st
           = map (\<lambda>u. if uid u = uid x then f u else u) st"
  using assms
proof (induction st)
  case Nil
  then show ?case by simp
next
  case (Cons a st)
  show ?case
  proof (cases "a = x")
    case True
    have "\<forall>u \<in> set st. uid u \<noteq> uid x"
      using Cons.prems(1) True by (auto simp: image_iff)
    then have "map (\<lambda>u. if uid u = uid x then f u else u) st = st"
      by (simp add: map_idI)
    with True Cons.prems show ?thesis by simp
  next
    case False
    with Cons.prems have "x \<in> set st" "uid a \<noteq> uid x" by auto
    with Cons show ?thesis by simp
  qed
qed

text \<open>
  A backfill block that is given ids of unpositioned children of \<open>p\<close>, and a child id
  that is missing only when the slot is free, never has its write rejected.
\<close>

lemma backfill_spec:
  assumes d: "distinct (map uid st)"
    and U: "\<forall>t \<in> set U. \<exists>x \<in> set st. uid x = t \<and> position x = None \<and> parent x = Some p"
    and free: "c = None \<longrightarrow> \<not> (\<exists>u \<in> set st. parent u = Some p \<and> position u = Some pos)"
  shows "backfill st pos c P U =
     (case U of
        [] \<Rightarrow> (Inr (c, P, U), st)
      | a # rest \<Rightarrow>
          if c = None
          then (Inr (Some a, insert pos P, rest),
                map (\<lambda>u. if uid u = a then u\<lparr>position := Some pos\<rparr> else u) st)
          else (Inr (c, P, U), st))"
proof (cases U)
  case Nil
  then show ?thesis by (simp add: backfill_def)
next
  case (Cons a rest)
  show ?thesis
  proof (cases "c = None")
    case False
    with Cons show ?thesis by (auto simp: backfill_def)
  next
    case True
    from U Cons obtain x where x: "x \<in> set st" "uid x = a" "position x = None" "parent x = Some p"
      by auto
    have f: "find (\<lambda>u. uid u = a \<and> position u = None) st = Some x"
      using find_by_uid [OF d x(1), of "\<lambda>u. position u = None"] x by simp
    have nc: "\<not> index_conflict st (parent x) (Some pos)"
      using free True x(4) by (auto simp: index_conflict_def list_ex_iff)
    have u: "update_first (\<lambda>u. uid u = a \<and> position u = None) (\<lambda>u. u\<lparr>position := Some pos\<rparr>) st
               = map (\<lambda>u. if uid u = a then u\<lparr>position := Some pos\<rparr> else u) st"
      using update_first_by_uid [OF d x(1), of "\<lambda>u. position u = None"] x by simp
    show ?thesis
      using True Cons f nc u by (simp add: backfill_def updateOne_def)
  qed
qed


lemma backfill_fill:
  assumes d: "distinct (map uid st)"
    and U: "\<forall>t \<in> set U. \<exists>x \<in> set st. uid x = t \<and> position x = None \<and> parent x = Some p"
    and free: "c = None \<longrightarrow> \<not> (\<exists>u \<in> set st. parent u = Some p \<and> position u = Some pos)"
  shows "backfill st pos c P U =
           (case fill pos c P U st of (c', P', U', st') \<Rightarrow> (Inr (c', P', U'), st'))"
  by (auto simp: backfill_spec [OF d U free] fill_def set_pos_def split: list.splits)

lemma classify_children:
  "classify (filter (\<lambda>u. parent u = Some p) st) {} None None [] =
     ({q. occupied st p q}, child_at st p Left, child_at st p Right, unpositioned_children st p)"
proof -
  have e: "(\<exists>c \<in> set (filter (\<lambda>u. parent u = Some p) st). position c = Some q) = occupied st p q"
    for q
    by (auto simp: occupied_def list_ex_iff)
  have f: "filter (\<lambda>c. position c = q) (filter (\<lambda>u. parent u = Some p) st)
             = filter (\<lambda>u. parent u = Some p \<and> position u = q) st" for q
    by simp
  show ?thesis
    by (simp only: classify_spec e f child_at_def unpositioned_children_def) simp
qed

lemma uid_set_pos [simp]: "map uid (set_pos a q st) = map uid st"
  by (induction st) (auto simp: set_pos_def)

lemma links_set_pos [simp]: "links (set_pos a q st) = links st"
  by (induction st) (auto simp: set_pos_def links_def)

lemma child_at_None: "child_at st p q = None \<longleftrightarrow> \<not> occupied st p q"
  by (simp add: child_at_def)

lemma unpositioned_in_store:
  "t \<in> set (unpositioned_children st p)
     \<longleftrightarrow> (\<exists>x \<in> set st. uid x = t \<and> position x = None \<and> parent x = Some p)"
  by (auto simp: unpositioned_children_def)

lemma distinct_unpositioned:
  "distinct (map uid st) \<Longrightarrow> distinct (unpositioned_children st p)"
  by (simp add: unpositioned_children_def distinct_map_filter)


text \<open>With distinct ids, no write of a visit is rejected, and the visit is two fills.\<close>

lemma visit_fill:
  assumes d: "distinct (map uid st)"
  shows "visit st p =
     (case fill Left (child_at st p Left) {q. occupied st p q} (unpositioned_children st p) st of
        (l1, P1, U1, st1) \<Rightarrow>
          (case fill Right (child_at st p Right) P1 U1 st1 of
             (r1, P2, U2, st2) \<Rightarrow>
               (Inr (pickMissingPosition P2,
                     (case l1 of None \<Rightarrow> [] | Some l \<Rightarrow> [l]) @
                     (case r1 of None \<Rightarrow> [] | Some r \<Rightarrow> [r]) @ U2),
                st2)))"
proof -
  let ?U = "unpositioned_children st p"
  obtain l1 P1 U1 st1 where f1:
    "fill Left (child_at st p Left) {q. occupied st p q} ?U st = (l1, P1, U1, st1)"
    using prod_cases4 by blast
  have U0: "\<forall>t \<in> set ?U. \<exists>x \<in> set st. uid x = t \<and> position x = None \<and> parent x = Some p"
    by (simp add: unpositioned_in_store)
  have free0: "child_at st p Left = None
                 \<longrightarrow> \<not> (\<exists>u \<in> set st. parent u = Some p \<and> position u = Some Left)"
    by (simp add: child_at_None occupied_def list_ex_iff)
  have b1: "backfill st Left (child_at st p Left) {q. occupied st p q} ?U
              = (Inr (l1, P1, U1), st1)"
    using backfill_fill [OF d U0 free0] f1 by simp
  have d1: "distinct (map uid st1)"
    using f1 d by (auto simp: fill_def split: list.splits if_splits)
  have U1: "\<forall>t \<in> set U1. \<exists>x \<in> set st1. uid x = t \<and> position x = None \<and> parent x = Some p"
  proof (cases "?U")
    case Nil
    with f1 show ?thesis by (simp add: fill_def)
  next
    case (Cons a rest)
    show ?thesis
    proof (cases "child_at st p Left = None")
      case False
      with f1 Cons U0 show ?thesis by (auto simp: fill_def)
    next
      case True
      with f1 Cons have e: "U1 = rest" "st1 = set_pos a Left st" by (simp_all add: fill_def)
      have "a \<notin> set rest"
        using distinct_unpositioned [OF d, of p] Cons by simp
      then show ?thesis
        using U0 Cons unfolding e by (force simp: set_pos_def)
    qed
  qed
  have free1: "child_at st p Right = None
                 \<longrightarrow> \<not> (\<exists>u \<in> set st1. parent u = Some p \<and> position u = Some Right)"
  proof -
    have "\<forall>u \<in> set st1. position u = Some Right \<longrightarrow> parent u = Some p
            \<longrightarrow> (\<exists>u' \<in> set st. position u' = Some Right \<and> parent u' = Some p)"
      using f1 by (auto simp: fill_def set_pos_def split: list.splits if_splits)
    then show ?thesis
      by (auto simp: child_at_None occupied_def list_ex_iff)
  qed
  obtain r1 P2 U2 st2 where f2: "fill Right (child_at st p Right) P1 U1 st1 = (r1, P2, U2, st2)"
    using prod_cases4 by blast
  have b2: "backfill st1 Right (child_at st p Right) P1 U1 = (Inr (r1, P2, U2), st2)"
    using backfill_fill [OF d1 U1 free1] f2 by simp
  show ?thesis
    by (simp add: visit_def classify_children b1 b2 f1 f2)
qed


section \<open>The legacy backfill\<close>

lemma set_pos_keeps:
  "x \<in> set st \<Longrightarrow> uid x \<noteq> a \<Longrightarrow> x \<in> set (set_pos a q st)"
  by (force simp: set_pos_def)

lemma visit_store:
  assumes "distinct (map uid st)"
  shows "snd (visit st p) =
      (case unpositioned_children st p of
         [] \<Rightarrow> st
       | a # rest \<Rightarrow>
           if \<not> occupied st p Left then
             (case rest of
                [] \<Rightarrow> set_pos a Left st
              | b # rest' \<Rightarrow>
                  if \<not> occupied st p Right then set_pos b Right (set_pos a Left st)
                  else set_pos a Left st)
           else if \<not> occupied st p Right then set_pos a Right st
           else st)"
  by (simp add: visit_fill [OF assms] fill_def child_at_None split: list.splits)

lemma visit_keeps:
  assumes d: "distinct (map uid st)" and x: "x \<in> set st"
    and n: "uid x \<notin> set (take 2 (unpositioned_children st p))"
  shows "x \<in> set (snd (visit st p))"
proof (cases "unpositioned_children st p")
  case Nil
  with x show ?thesis by (simp add: visit_store [OF d])
next
  case (Cons a rest)
  with n have a: "uid x \<noteq> a" by simp
  show ?thesis
  proof (cases rest)
    case Nil
    with Cons x a show ?thesis by (simp add: visit_store [OF d] set_pos_keeps)
  next
    case (Cons b rest')
    with \<open>unpositioned_children st p = a # rest\<close> n have b: "uid x \<noteq> b" by simp
    with Cons \<open>unpositioned_children st p = a # rest\<close> x a show ?thesis
      by (simp add: visit_store [OF d] set_pos_keeps)
  qed
qed


text \<open>
  C6. In a store with distinct ids, visiting a parent during the placement search changes
  the store as follows. The earliest-created child without a position is given the left
  slot if the left slot has no child, and the next one (the earliest, when the left slot
  was taken) is given the right slot if the right slot has no child; nothing else is
  written. So no third unpositioned child ever gets a position: the unpositioned children
  after the first two stay unpositioned, and, the update being guarded on a null
  position, every document that has a position stays as it is.
\<close>

theorem backfill_first_two:
  assumes "distinct (map uid st)"
  shows "snd (visit st p) =
      (case unpositioned_children st p of
         [] \<Rightarrow> st
       | a # rest \<Rightarrow>
           if \<not> occupied st p Left then
             (case rest of
                [] \<Rightarrow> set_pos a Left st
              | b # rest' \<Rightarrow>
                  if \<not> occupied st p Right then set_pos b Right (set_pos a Left st)
                  else set_pos a Left st)
           else if \<not> occupied st p Right then set_pos a Right st
           else st)
     \<and> (\<forall>c \<in> set (drop 2 (unpositioned_children st p)).
           c \<in> set (unpositioned_children (snd (visit st p)) p))
     \<and> (\<forall>u \<in> set st. position u \<noteq> None \<longrightarrow> u \<in> set (snd (visit st p)))"
proof (intro conjI ballI impI)
  show "snd (visit st p) =
      (case unpositioned_children st p of
         [] \<Rightarrow> st
       | a # rest \<Rightarrow>
           if \<not> occupied st p Left then
             (case rest of
                [] \<Rightarrow> set_pos a Left st
              | b # rest' \<Rightarrow>
                  if \<not> occupied st p Right then set_pos b Right (set_pos a Left st)
                  else set_pos a Left st)
           else if \<not> occupied st p Right then set_pos a Right st
           else st)"
    by (rule visit_store [OF assms])
next
  fix c assume c: "c \<in> set (drop 2 (unpositioned_children st p))"
  have "distinct (take 2 (unpositioned_children st p) @ drop 2 (unpositioned_children st p))"
    using distinct_unpositioned [OF assms, of p] by simp
  with c have n: "c \<notin> set (take 2 (unpositioned_children st p))"
    by (auto simp only: distinct_append)
  from c have "c \<in> set (unpositioned_children st p)"
    by (rule in_set_dropD)
  then obtain x where x: "x \<in> set st" "uid x = c" "position x = None" "parent x = Some p"
    by (auto simp: unpositioned_in_store)
  from visit_keeps [OF assms x(1)] n x(2) have "x \<in> set (snd (visit st p))"
    by simp
  with x show "c \<in> set (unpositioned_children (snd (visit st p)) p)"
    by (auto simp: unpositioned_in_store)
next
  fix u assume u: "u \<in> set st" "position u \<noteq> None"
  have "uid u \<notin> set (unpositioned_children st p)"
  proof
    assume "uid u \<in> set (unpositioned_children st p)"
    then obtain x where x: "x \<in> set st" "uid x = uid u" "position x = None"
      by (auto simp: unpositioned_in_store)
    from distinct_uid_eq [OF assms x(1) u(1) x(2)] x(3) u(2) show False by simp
  qed
  then have "uid u \<notin> set (take 2 (unpositioned_children st p))"
    by (meson in_set_takeD)
  from visit_keeps [OF assms u(1) this] show "u \<in> set (snd (visit st p))" .
qed

theorem backfill_first_two_witness:
  "distinct (map uid legacy_store)
   \<and> unpositioned_children legacy_store 10 = [11, 12, 13]
   \<and> snd (visit legacy_store 10) =
       [member 10 None None, member 11 (Some 10) (Some Left), member 12 (Some 10) (Some Right),
        member 13 (Some 10) None]
   \<and> 13 \<in> set (unpositioned_children (snd (visit legacy_store 10)) 10)"
proof -
  have d: "distinct (map uid legacy_store)"
    by (simp add: legacy_store_def member_def)
  have u: "unpositioned_children legacy_store 10 = [11, 12, 13]"
    by (simp add: unpositioned_children_def legacy_store_def member_def)
  have o: "\<not> occupied legacy_store 10 Left" "\<not> occupied legacy_store 10 Right"
    by (simp_all add: occupied_def legacy_store_def member_def)
  have s: "set_pos 12 Right (set_pos 11 Left legacy_store) =
       [member 10 None None, member 11 (Some 10) (Some Left), member 12 (Some 10) (Some Right),
        member 13 (Some 10) None]"
    by (simp add: set_pos_def legacy_store_def member_def)
  from backfill_first_two [OF d, of 10] show ?thesis
    using d by (simp add: u o s) (simp add: unpositioned_children_def member_def)
qed

section \<open>The binary constraint\<close>

lemma binary_ok_count:
  assumes "binary_ok st"
  shows "length (filter (\<lambda>u. parent u = Some p \<and> position u = Some q) st) \<le> 1"
proof -
  have g: "distinct (map f xs) \<Longrightarrow> length (filter (\<lambda>x. f x = k) xs) \<le> 1" for f :: "user \<Rightarrow> nat option \<times> BinaryPosition option" and xs k
    by (induction xs) (auto simp: filter_empty_conv image_iff)
  have "filter (\<lambda>u. parent u = Some p \<and> position u = Some q) st
        = filter (\<lambda>u. (parent u, position u) = (Some p, Some q))
            (filter (\<lambda>u. parent u \<noteq> None \<and> position u \<noteq> None) st)"
    by (induction st) auto
  with g [of "\<lambda>u. (parent u, position u)" "filter (\<lambda>u. parent u \<noteq> None \<and> position u \<noteq> None) st" "(Some p, Some q)"]
    assms show ?thesis
    by (simp add: binary_ok_def index_keys_def)
qed

lemma create_user_binary_ok:
  assumes "create_user st u = Inr st'" and "binary_ok st"
  shows "binary_ok st'"
proof -
  from assms(1) have st': "st' = st @ [u]" and nc: "\<not> index_conflict st (parent u) (position u)"
    by (auto simp: create_user_def split: if_splits)
  from nc assms(2) show ?thesis
    unfolding st' by (auto simp: binary_ok_def index_keys_def index_conflict_iff)
qed

lemma findBinaryPlacement_binary_ok:
  "binary_ok st \<Longrightarrow> binary_ok (snd (findBinaryPlacement s st))"
  by (simp add: findBinaryPlacement_def bfs_binary_ok)

lemma register_binary_ok:
  assumes "binary_ok st"
  shows "binary_ok (snd (register id newId mail code refCode st))"
proof (cases refCode)
  case None
  with assms show ?thesis
    by (auto simp: register_def Let_def create_user_binary_ok split: sum.splits)
next
  case (Some rc)
  show ?thesis
  proof (cases "find (\<lambda>u. referralCode u = rc) st")
    case None
    with Some assms show ?thesis by (simp add: register_def)
  next
    case (Some sponsor)
    obtain res st1 where f: "findBinaryPlacement (uid sponsor) st = (res, st1)" by fastforce
    have ok1: "binary_ok st1"
      using findBinaryPlacement_binary_ok [OF assms, of "uid sponsor"] f by simp
    with assms f Some \<open>refCode = Some rc\<close> show ?thesis
      by (auto simp: register_def Let_def create_user_binary_ok split: sum.splits)
  qed
qed

lemma register_all_binary_ok:
  "binary_ok st \<Longrightarrow> binary_ok (register_all reqs st)"
proof (induction reqs arbitrary: st)
  case Nil
  then show ?case by simp
next
  case (Cons req reqs)
  obtain newId mail code refCode where req: "req = (newId, mail, code, refCode)"
    using prod_cases4 by blast
  show ?case
    unfolding req using Cons.IH [OF register_binary_ok [OF Cons.prems]] by simp
qed

lemma register_root:
  assumes "\<not> list_ex (\<lambda>u. email u = mail) st" and "\<not> list_ex (\<lambda>u. referralCode u = code) st"
  shows "register id newId mail code None st =
           (Inr \<lparr>uid = newId, email = mail, referralCode = code, parent = None, position = None\<rparr>,
            st @ [\<lparr>uid = newId, email = mail, referralCode = code, parent = None, position = None\<rparr>])"
  using assms by (simp add: register_def create_user_def index_conflict_def Let_def)


text \<open>
  C7. Starting from a store that meets the (parent, position) uniqueness constraint, any
  number of registrations run one after the other (under the same sponsor or not) leaves
  a store that meets it: every parent has at most one left and at most one right child.
  The constraint leaves out documents without parent and position, so a member
  registered without a referral code is inserted as one more root whatever roots exist.
\<close>

theorem binary_constraint_kept:
  assumes "binary_ok st"
  shows "binary_ok (register_all reqs st)
       \<and> (\<forall>p q. length (filter (\<lambda>u. parent u = Some p \<and> position u = Some q)
                          (register_all reqs st)) \<le> 1)
       \<and> (\<forall>newId mail code.
             \<not> list_ex (\<lambda>u. email u = mail) (register_all reqs st)
             \<and> \<not> list_ex (\<lambda>u. referralCode u = code) (register_all reqs st)
             \<longrightarrow> register id newId mail code None (register_all reqs st) =
                   (Inr \<lparr>uid = newId, email = mail, referralCode = code, parent = None,
                          position = None\<rparr>,
                    register_all reqs st
                      @ [\<lparr>uid = newId, email = mail, referralCode = code, parent = None,
                           position = None\<rparr>]))"
  using register_all_binary_ok [OF assms] binary_ok_count register_root by blast

theorem binary_constraint_kept_witness:
  "binary_ok race_store
   \<and> register_all [(20, ''a@x'', ''A'', Some ''S''), (21, ''b@x'', ''B'', Some ''S''),
                     (22, ''c@x'', ''C'', Some ''S''), (23, ''d@x'', ''D'', None)] race_store
     = [\<lparr>uid = 10, email = ''s@x'', referralCode = ''S'', parent = None, position = None\<rparr>,
        \<lparr>uid = 20, email = ''a@x'', referralCode = ''A'', parent = Some 10, position = Some Left\<rparr>,
        \<lparr>uid = 21, email = ''b@x'', referralCode = ''B'', parent = Some 10, position = Some Right\<rparr>,
        \<lparr>uid = 22, email = ''c@x'', referralCode = ''C'', parent = Some 20, position = Some Left\<rparr>,
        \<lparr>uid = 23, email = ''d@x'', referralCode = ''D'', parent = None, position = None\<rparr>]
   \<and> binary_ok
        [\<lparr>uid = 10, email = ''s@x'', referralCode = ''S'', parent = None, position = None\<rparr>,
        \<lparr>uid = 20, email = ''a@x'', referralCode = ''A'', parent = Some 10, position = Some Left\<rparr>,
        \<lparr>uid = 21, email = ''b@x'', referralCode = ''B'', parent = Some 10, position = Some Right\<rparr>,
        \<lparr>uid = 22, email = ''c@x'', referralCode = ''C'', parent = Some 20, position = Some Left\<rparr>,
        \<lparr>uid = 23, email = ''d@x'', referralCode = ''D'', parent = None, position = None\<rparr>]"
proof -
  have ok: "binary_ok race_store"
    by (simp add: binary_ok_def index_keys_def race_store_def)
  have run: "register_all [(20, ''a@x'', ''A'', Some ''S''), (21, ''b@x'', ''B'', Some ''S''),
                     (22, ''c@x'', ''C'', Some ''S''), (23, ''d@x'', ''D'', None)] race_store
     = [\<lparr>uid = 10, email = ''s@x'', referralCode = ''S'', parent = None, position = None\<rparr>,
        \<lparr>uid = 20, email = ''a@x'', referralCode = ''A'', parent = Some 10, position = Some Left\<rparr>,
        \<lparr>uid = 21, email = ''b@x'', referralCode = ''B'', parent = Some 10, position = Some Right\<rparr>,
        \<lparr>uid = 22, email = ''c@x'', referralCode = ''C'', parent = Some 20, position = Some Left\<rparr>,
        \<lparr>uid = 23, email = ''d@x'', referralCode = ''D'', parent = None, position = None\<rparr>]"
    by (simp add: register_def create_user_def index_conflict_def Let_def race_store_def
          findBinaryPlacement_def bfs.simps loop_body_def visit_def backfill_def
          pickMissingPosition_def MAX_VISITS_def)
  from binary_constraint_kept [OF ok, of "[(20, ''a@x'', ''A'', Some ''S''), (21, ''b@x'', ''B'', Some ''S''),
                     (22, ''c@x'', ''C'', Some ''S''), (23, ''d@x'', ''D'', None)]"]
  show ?thesis
    using ok unfolding run by simp
qed

section \<open>Registration under a slot race\<close>

lemma race_placement:
  "findBinaryPlacement 10 race_store = (Inr (10, Left), race_store)"
  by (simp add: findBinaryPlacement_def bfs.simps loop_body_def visit_def backfill_def
        pickMissingPosition_def MAX_VISITS_def race_store_def)

lemma race_placement_again:
  "findBinaryPlacement 10 (rival race_store) = (Inr (10, Right), rival race_store)"
  by (simp add: findBinaryPlacement_def bfs.simps loop_body_def visit_def backfill_def
        pickMissingPosition_def MAX_VISITS_def race_store_def rival_def)

lemma race_sponsor:
  "find (\<lambda>u. referralCode u = ''S'') race_store
     = Some \<lparr>uid = 10, email = ''s@x'', referralCode = ''S'', parent = None, position = None\<rparr>"
  "find (\<lambda>u. referralCode u = ''S'') (rival race_store)
     = Some \<lparr>uid = 10, email = ''s@x'', referralCode = ''S'', parent = None, position = None\<rparr>"
  "\<not> list_ex (\<lambda>u. email u = ''b@x'') race_store"
  "\<not> list_ex (\<lambda>u. email u = ''b@x'') (rival race_store)"
  by (simp_all add: race_store_def rival_def)

lemma race_create:
  "create_user (rival race_store)
     \<lparr>uid = 20, email = ''b@x'', referralCode = ''B'', parent = Some 10, position = Some Left\<rparr>
   = Inl DuplicateKey"
  "create_user (rival race_store)
     \<lparr>uid = 20, email = ''b@x'', referralCode = ''B'', parent = Some 10, position = Some Right\<rparr>
   = Inr (rival race_store @
       [\<lparr>uid = 20, email = ''b@x'', referralCode = ''B'', parent = Some 10, position = Some Right\<rparr>])"
  by (simp_all add: race_store_def rival_def create_user_def index_conflict_def)

text \<open>
  C8 as stated fails: one concurrent registration takes the slot found, and the handler
  answers with the duplicate-key error at this first rejection, although the right slot
  of the same sponsor is free and the retry the specification asks for would succeed.
\<close>

theorem register_no_retry_counterexample:
  "register rival 20 ''b@x'' ''B'' (Some ''S'') race_store = (Inl DuplicateKey, rival race_store)
   \<and> fst (register_retrying 1 (\<lambda>k. if k = 1 then rival else id) 20 ''b@x'' ''B'' (Some ''S'')
            race_store)
       = Inr \<lparr>uid = 20, email = ''b@x'', referralCode = ''B'', parent = Some 10,
               position = Some Right\<rparr>"
proof -
  have a: "register rival 20 ''b@x'' ''B'' (Some ''S'') race_store
             = (Inl DuplicateKey, rival race_store)"
    by (simp add: register_def race_sponsor race_placement race_create Let_def)
  have b: "fst (register id 20 ''b@x'' ''B'' (Some ''S'') (rival race_store))
       = Inr \<lparr>uid = 20, email = ''b@x'', referralCode = ''B'', parent = Some 10,
               position = Some Right\<rparr>"
    by (simp add: register_def race_sponsor race_placement_again race_create Let_def)
  have "register_retrying (Suc 0) (\<lambda>k. if k = 1 then rival else id) 20 ''b@x'' ''B'' (Some ''S'')
            race_store = register id 20 ''b@x'' ''B'' (Some ''S'') (rival race_store)"
    by (simp add: a)
  with a b show ?thesis by simp
qed


text \<open>
  C8, amended. When the insert of the new member is rejected (a concurrent registration
  took the slot that the search returned), the registration handler does not search
  again: it answers with that first error, and the store is as the concurrent writer
  left it.
\<close>

theorem register_surfaces_first_violation:
  assumes "\<not> list_ex (\<lambda>u. email u = mail) st"
    and "find (\<lambda>u. referralCode u = rc) st = Some sponsor"
    and "findBinaryPlacement (uid sponsor) st = (Inr (parentId, pos), st1)"
    and "create_user (others st1)
           \<lparr>uid = newId, email = mail, referralCode = code, parent = Some parentId,
             position = Some pos\<rparr> = Inl e"
  shows "register others newId mail code (Some rc) st = (Inl e, others st1)"
  using assms by (simp add: register_def)

theorem register_surfaces_first_violation_witness:
  "register rival 20 ''b@x'' ''B'' (Some ''S'') race_store = (Inl DuplicateKey, rival race_store)"
proof -
  have p: "findBinaryPlacement
             (uid \<lparr>uid = 10, email = ''s@x'', referralCode = ''S'', parent = None, position = None\<rparr>)
             race_store = (Inr (10, Left), race_store)"
    using race_placement by simp
  from register_surfaces_first_violation
         [where others = rival, OF race_sponsor(3) race_sponsor(1) p race_create(1)]
  show ?thesis .
qed


section \<open>Failure of the placement search\<close>

lemma child_at_Some:
  assumes "child_at st p q = Some k"
  shows "\<exists>x \<in> set st. uid x = k \<and> parent x = Some p \<and> position x = Some q"
proof -
  let ?xs = "filter (\<lambda>u. parent u = Some p \<and> position u = Some q) st"
  from assms have occ: "occupied st p q" and k: "k = uid (last ?xs)"
    by (auto simp: child_at_def split: if_splits)
  from occ have "?xs \<noteq> []"
    by (auto simp: occupied_def list_ex_iff filter_empty_conv)
  then have "last ?xs \<in> set ?xs" by (rule last_in_set)
  with k show ?thesis by auto
qed

lemma parent_of_member:
  assumes "distinct (map uid st)" and "x \<in> set st"
  shows "parent_of st (uid x) = parent x"
  using find_by_uid [OF assms, of "\<lambda>u. True"] by (simp add: parent_of_def)

lemma parent_of_links:
  "links st' = links st \<Longrightarrow> parent_of st' = parent_of st"
proof (induction st arbitrary: st')
  case Nil
  then show ?case by (simp add: links_def)
next
  case (Cons a st)
  then obtain b st2 where st': "st' = b # st2" by (cases st') (auto simp: links_def)
  with Cons.prems have ab: "uid b = uid a" "parent b = parent a" and l: "links st2 = links st"
    by (auto simp: links_def)
  from Cons.IH [OF l] ab show ?case
    by (auto simp: st' parent_of_def fun_eq_iff)
qed

lemma uid_links: "links st' = links st \<Longrightarrow> map uid st' = map uid st"
proof -
  assume "links st' = links st"
  then have "map fst (links st') = map fst (links st)" by simp
  then show ?thesis by (simp add: links_def comp_def)
qed

text \<open>What a visit returns in a store with distinct ids.\<close>

lemma visit_result:
  assumes d: "distinct (map uid st)"
  obtains m kids where "fst (visit st p) = Inr (m, kids)"
    and "\<forall>k \<in> set kids. parent_of st k = Some p"
    and "m = None \<longrightarrow> (\<exists>l r. l \<noteq> r \<and> l \<in> set kids \<and> r \<in> set kids)"
proof -
  let ?U = "unpositioned_children st p"
  let ?opt = "\<lambda>c. case c of None \<Rightarrow> [] | Some (k::nat) \<Rightarrow> [k]"
  obtain l1 P1 U1 st1 where f1:
    "fill Left (child_at st p Left) {q. occupied st p q} ?U st = (l1, P1, U1, st1)"
    using prod_cases4 by blast
  obtain r1 P2 U2 st2 where f2: "fill Right (child_at st p Right) P1 U1 st1 = (r1, P2, U2, st2)"
    using prod_cases4 by blast
  have v: "fst (visit st p) = Inr (pickMissingPosition P2, ?opt l1 @ ?opt r1 @ U2)"
    by (simp add: visit_fill [OF d] f1 f2)
  have child: "parent_of st k = Some p \<and> (\<exists>x \<in> set st. uid x = k \<and> position x = Some q)"
    if "child_at st p q = Some k" for q k
    using child_at_Some [OF that] parent_of_member [OF d] by force
  have unpos: "parent_of st k = Some p \<and> (\<exists>x \<in> set st. uid x = k \<and> position x = None)"
    if "k \<in> set ?U" for k
    using that parent_of_member [OF d] by (force simp: unpositioned_in_store)
  have dU: "distinct ?U" by (rule distinct_unpositioned [OF d])
  have same: "x = y" if "x \<in> set st" "y \<in> set st" "uid x = uid y" for x y
    using distinct_uid_eq [OF d that] .
  text \<open>The left and right ids with where they come from.\<close>
  have l1: "(l1 = child_at st p Left \<and> U1 = ?U \<and> P1 = {q. occupied st p q})
            \<or> (\<exists>a. l1 = Some a \<and> ?U = a # U1 \<and> child_at st p Left = None
                    \<and> P1 = insert Left {q. occupied st p q})"
    using f1 by (auto simp: fill_def split: list.splits if_splits)
  have r1: "(r1 = child_at st p Right \<and> U2 = U1 \<and> P2 = P1)
            \<or> (\<exists>b. r1 = Some b \<and> U1 = b # U2 \<and> child_at st p Right = None \<and> P2 = insert Right P1)"
    using f2 by (auto simp: fill_def split: list.splits if_splits)
  have sub: "set U2 \<subseteq> set ?U" "set U1 \<subseteq> set ?U"
  proof -
    from l1 show "set U1 \<subseteq> set ?U"
    proof (elim disjE conjE exE)
      assume "U1 = ?U" then show ?thesis by (simp only: subset_refl)
    next
      fix a assume "?U = a # U1" then show ?thesis by (simp only: set_subset_Cons)
    qed
    moreover from r1 have "set U2 \<subseteq> set U1"
    proof (elim disjE conjE exE)
      assume "U2 = U1" then show ?thesis by (simp only: subset_refl)
    next
      fix b assume "U1 = b # U2" then show ?thesis by (simp only: set_subset_Cons)
    qed
    ultimately show "set U2 \<subseteq> set ?U" by (rule subset_trans [rotated])
  qed
  have kids: "\<forall>k \<in> set (?opt l1 @ ?opt r1 @ U2). parent_of st k = Some p"
  proof
    fix k assume "k \<in> set (?opt l1 @ ?opt r1 @ U2)"
    then consider "l1 = Some k" | "r1 = Some k" | "k \<in> set U2"
      by (auto split: option.splits)
    then show "parent_of st k = Some p"
    proof cases
      case 1
      from l1 show ?thesis
      proof (elim disjE conjE exE)
        assume "l1 = child_at st p Left"
        with 1 have "child_at st p Left = Some k" by (simp only:)
        from child [OF this] show ?thesis by blast
      next
        fix a assume "l1 = Some a" and u: "?U = a # U1"
        with 1 have "a = k" by (simp only: option.inject)
        with u have "?U = k # U1" by (simp only:)
        then have "k \<in> set ?U" by (simp only: list.set_intros)
        from unpos [OF this] show ?thesis by blast
      qed
    next
      case 2
      from r1 show ?thesis
      proof (elim disjE conjE exE)
        assume "r1 = child_at st p Right"
        with 2 have "child_at st p Right = Some k" by (simp only:)
        from child [OF this] show ?thesis by blast
      next
        fix b assume "r1 = Some b" and u: "U1 = b # U2"
        with 2 have "b = k" by (simp only: option.inject)
        with u have "U1 = k # U2" by (simp only:)
        then have "k \<in> set U1" by (simp only: list.set_intros)
        with sub(2) have "k \<in> set ?U" by blast
        from unpos [OF this] show ?thesis by blast
      qed
    next
      case 3
      with sub unpos show ?thesis by blast
    qed
  qed
  have two: "\<exists>l r. l \<noteq> r \<and> l \<in> set (?opt l1 @ ?opt r1 @ U2) \<and> r \<in> set (?opt l1 @ ?opt r1 @ U2)"
    if none: "pickMissingPosition P2 = None"
  proof -
    from none have LR: "Left \<in> P2" "Right \<in> P2"
      by (auto simp: pickMissingPosition_def split: if_splits)
    have occL: "occupied st p Left \<Longrightarrow> child_at st p Left \<noteq> None"
      and occR: "occupied st p Right \<Longrightarrow> child_at st p Right \<noteq> None"
      by (simp_all add: child_at_def)
    from LR l1 r1 occL obtain l where l: "l1 = Some l" by auto
    from LR l1 r1 occR obtain r where r: "r1 = Some r" by auto
    have clash: False
      if "x \<in> set st" "y \<in> set st" "uid x = k" "uid y = k" "position x \<noteq> position y"
      for x y k
    proof -
      from that(3,4) have "uid x = uid y" by (simp only:)
      from same [OF that(1,2) this] that(5) show False by (simp only: simp_thms)
    qed
    have "l \<noteq> r"
    proof
      assume e: "l = r"
      from l1 show False
      proof (elim disjE conjE exE)
        assume a: "l1 = child_at st p Left" "U1 = ?U"
        from a(1) l have "child_at st p Left = Some l" by (simp only:)
        from child [OF this] obtain x where x: "x \<in> set st" "uid x = l" "position x = Some Left"
          by blast
        from r1 show False
        proof (elim disjE conjE exE)
          assume "r1 = child_at st p Right"
          with r e have "child_at st p Right = Some l" by (simp only:)
          from child [OF this] obtain y where y: "y \<in> set st" "uid y = l" "position y = Some Right"
            by blast
          have "position x \<noteq> position y" by (simp add: x(3) y(3))
          from clash [OF x(1) y(1) x(2) y(2) this] show False .
        next
          fix b assume rb: "r1 = Some b" and u: "U1 = b # U2"
          from rb r e have "b = l" by (simp only: option.inject)
          with u a(2) have "?U = l # U2" by (simp only:)
          then have "l \<in> set ?U" by (simp only: list.set_intros)
          from unpos [OF this] obtain y where y: "y \<in> set st" "uid y = l" "position y = None"
            by blast
          have "position x \<noteq> position y" by (simp add: x(3) y(3))
          from clash [OF x(1) y(1) x(2) y(2) this] show False .
        qed
      next
        fix a assume a: "l1 = Some a" "?U = a # U1"
        from a(1) l have la: "a = l" by (simp only: option.inject)
        from a(2) la have "?U = l # U1" by (simp only:)
        then have "l \<in> set ?U" by (simp only: list.set_intros)
        from unpos [OF this] obtain x where x: "x \<in> set st" "uid x = l" "position x = None"
          by blast
        from r1 show False
        proof (elim disjE conjE exE)
          assume "r1 = child_at st p Right"
          with r e have "child_at st p Right = Some l" by (simp only:)
          from child [OF this] obtain y where y: "y \<in> set st" "uid y = l" "position y = Some Right"
            by blast
          have "position x \<noteq> position y" by (simp add: x(3) y(3))
          from clash [OF x(1) y(1) x(2) y(2) this] show False .
        next
          fix b assume rb: "r1 = Some b" and u: "U1 = b # U2"
          from rb r e have "b = l" by (simp only: option.inject)
          with u a(2) la have "?U = l # l # U2" by (simp only:)
          with dU show False by (simp only: distinct.simps list.set_intros not_True_eq_False simp_thms)
        qed
      qed
    qed
    with l r show ?thesis by auto
  qed
  have none: "pickMissingPosition P2 = None \<longrightarrow>
          (\<exists>l r. l \<noteq> r \<and> l \<in> set (?opt l1 @ ?opt r1 @ U2) \<and> r \<in> set (?opt l1 @ ?opt r1 @ U2))"
    by (rule impI) (rule two)
  show ?thesis
    by (rule that [OF v kids none])
qed

text \<open>
  No finite non-empty set of members is closed under "has two different children in the
  set": the children of different parents are different, so there would be twice as many
  children as members.
\<close>

lemma no_closed_set:
  fixes f :: "nat \<Rightarrow> nat option"
  assumes fin: "finite V" and ne: "V \<noteq> {}"
    and two: "\<forall>x \<in> V. \<exists>l r. l \<noteq> r \<and> l \<in> V \<and> r \<in> V \<and> f l = Some x \<and> f r = Some x"
  shows False
proof -
  define A where "A x = {c \<in> V. f c = Some x}" for x
  have finA: "finite (A x)" for x
    using fin by (simp add: A_def)
  have ge2: "2 \<le> card (A x)" if "x \<in> V" for x
  proof -
    from two that obtain l r where lr: "l \<noteq> r" "l \<in> A x" "r \<in> A x"
      by (auto simp: A_def)
    then have "{l, r} \<subseteq> A x" by simp
    from card_mono [OF finA this] lr(1) show ?thesis by simp
  qed
  have disj: "\<forall>x \<in> V. \<forall>y \<in> V. x \<noteq> y \<longrightarrow> A x \<inter> A y = {}"
    by (auto simp: A_def)
  have "card (\<Union>(A ` V)) = (\<Sum>x \<in> V. card (A x))"
    using fin finA disj by (intro card_UN_disjoint) auto
  moreover have "\<Union>(A ` V) \<subseteq> V"
    by (auto simp: A_def)
  then have "card (\<Union>(A ` V)) \<le> card V"
    by (rule card_mono [OF fin])
  moreover have "card V * 2 \<le> (\<Sum>x \<in> V. card (A x))"
    using sum_bounded_below [of V 2 "\<lambda>x. card (A x)"] ge2 by simp
  ultimately have "card V = 0" by simp
  with fin ne show False by simp
qed

lemma parent_of_in_store:
  assumes "parent_of st k = Some p"
  shows "k \<in> uid ` set st"
proof -
  from assms obtain u where "find (\<lambda>u. uid u = k) st = Some u"
    by (auto simp: parent_of_def split: option.splits)
  then have "u \<in> set st" "uid u = k"
    by (auto simp: find_Some_iff)
  then show ?thesis by blast
qed

lemma search_inv_step:
  assumes inv: "search_inv s q v st" and step: "loop_body q v st = Inl (q', v', st')"
  shows "search_inv s q' v' st' \<and> length st' = length st"
proof (cases q)
  case Nil
  with step show ?thesis by (simp add: loop_body_def)
next
  case (Cons p rest)
  from inv have d: "distinct (map uid st)" and dv: "distinct v"
    and sub: "set q \<union> set v \<subseteq> insert s (uid ` set st)"
    and cl: "\<forall>x \<in> set v. \<exists>l r. l \<noteq> r \<and> l \<in> set v \<union> set q \<and> r \<in> set v \<union> set q
                \<and> parent_of st l = Some x \<and> parent_of st r = Some x"
    by (simp_all add: search_inv_def)
  show ?thesis
  proof (cases "p \<in> set v")
    case True
    with step Cons have e: "q' = rest" "v' = v" "st' = st"
      by (simp_all add: loop_body_def)
    from True have "set v \<union> set q = set v \<union> set rest"
      using Cons by auto
    with cl have "\<forall>x \<in> set v. \<exists>l r. l \<noteq> r \<and> l \<in> set v \<union> set rest \<and> r \<in> set v \<union> set rest
                \<and> parent_of st l = Some x \<and> parent_of st r = Some x"
      by simp
    moreover from True have "v \<noteq> []" by auto
    moreover from sub Cons have "set rest \<union> set v \<subseteq> insert s (uid ` set st)" by auto
    ultimately show ?thesis
      unfolding e search_inv_def using d dv by simp
  next
    case False
    obtain res st1 where vis: "visit st p = (res, st1)" by fastforce
    obtain m kids where fv: "fst (visit st p) = Inr (m, kids)"
      and kp: "\<forall>k \<in> set kids. parent_of st k = Some p"
      and two: "m = None \<longrightarrow> (\<exists>l r. l \<noteq> r \<and> l \<in> set kids \<and> r \<in> set kids)"
      by (rule visit_result [OF d, of p])
    from fv vis have res: "res = Inr (m, kids)" by simp
    from step Cons False vis res have e: "q' = rest @ kids" "v' = v @ [p]" "st' = st1" and m: "m = None"
      by (auto simp: loop_body_def split: if_splits option.splits)
    have l: "links st' = links st"
      using visit_links [of st p] vis e by simp
    have po: "parent_of st' = parent_of st"
      by (rule parent_of_links [OF l])
    have ids: "map uid st' = map uid st"
      by (rule uid_links [OF l])
    then have ids': "uid ` set st' = uid ` set st"
      by (metis list.set_map)
    have len: "length st' = length st"
      using ids by (metis length_map)
    have 1: "distinct (map uid st')" using d ids by simp
    have 2: "distinct v'" using dv False e by simp
    have 3: "set q' \<union> set v' \<subseteq> insert s (uid ` set st')"
    proof -
      have "set kids \<subseteq> uid ` set st"
        using kp parent_of_in_store by blast
      with sub Cons show ?thesis unfolding e(1,2) ids' by auto
    qed
    have 4: "q' = [] \<longrightarrow> v' \<noteq> []" using e by simp
    have 5: "\<exists>l r. l \<noteq> r \<and> l \<in> set v' \<union> set q' \<and> r \<in> set v' \<union> set q'
                \<and> parent_of st' l = Some x \<and> parent_of st' r = Some x" if "x \<in> set v'" for x
    proof (cases "x = p")
      case True
      from two m obtain l r where "l \<noteq> r" "l \<in> set kids" "r \<in> set kids" by blast
      with kp True show ?thesis unfolding po e(1,2) by auto
    next
      case False
      with that e have "x \<in> set v" by simp
      with cl obtain l r where "l \<noteq> r" "l \<in> set v \<union> set q" "r \<in> set v \<union> set q"
        "parent_of st l = Some x" "parent_of st r = Some x" by blast
      moreover have "set v \<union> set q \<subseteq> set v' \<union> set q'"
        unfolding e(1,2) Cons by auto
      ultimately show ?thesis unfolding po by blast
    qed
    from 1 2 3 4 5 len show ?thesis
      by (simp add: search_inv_def)
  qed
qed

lemma search_inv_outcome:
  assumes inv: "search_inv s q v st" and out: "loop_body q v st = Inr (Inl e, st')"
  shows "e = ExceededSafeLimit \<and> MAX_VISITS \<le> length st"
proof (cases q)
  case Nil
  from inv Nil have "set v \<noteq> {}" and
    "\<forall>x \<in> set v. \<exists>l r. l \<noteq> r \<and> l \<in> set v \<and> r \<in> set v
                \<and> parent_of st l = Some x \<and> parent_of st r = Some x"
    by (simp_all add: search_inv_def)
  from no_closed_set [OF finite_set this] show ?thesis ..
next
  case (Cons p rest)
  from inv have d: "distinct (map uid st)" and dv: "distinct v"
    and sub: "set q \<union> set v \<subseteq> insert s (uid ` set st)"
    by (simp_all add: search_inv_def)
  obtain res st1 where vis: "visit st p = (res, st1)" by fastforce
  obtain m kids where fv: "fst (visit st p) = Inr (m, kids)"
    by (rule visit_result [OF d, of p])
  from fv vis have res: "res = Inr (m, kids)" by simp
  from out Cons vis res have nv: "p \<notin> set v" and cap: "length (v @ [p]) > MAX_VISITS"
    and e: "e = ExceededSafeLimit"
    by (auto simp: loop_body_def split: if_splits option.splits)
  have "distinct (v @ [p])" using dv nv by simp
  then have "length (v @ [p]) = card (set (v @ [p]))"
    by (simp only: distinct_card)
  also have "\<dots> \<le> card (insert s (uid ` set st))"
    using sub Cons by (intro card_mono) auto
  also have "\<dots> \<le> Suc (card (uid ` set st))"
    by (simp add: card_insert_le_m1)
  also have "\<dots> \<le> Suc (length st)"
    using card_image_le [of "set st" uid] card_length [of st] by simp
  finally have "length (v @ [p]) \<le> Suc (length st)" .
  with cap e show ?thesis by simp
qed

lemma bfs_fails_only_by_limit:
  assumes "search_inv s q v st" and "fst (bfs q v st) = Inl e"
  shows "e = ExceededSafeLimit \<and> MAX_VISITS \<le> length st"
  using assms
proof (induction q v st rule: bfs.induct)
  case (1 q v st)
  show ?case
  proof (cases "loop_body q v st")
    case (Inl a)
    obtain q' v' st' where a: "a = (q', v', st')" using prod_cases3 by blast
    from search_inv_step [OF "1.prems"(1) Inl [unfolded a]]
    have inv': "search_inv s q' v' st'" and len: "length st' = length st" by simp_all
    from "1.prems"(2) Inl a have "fst (bfs q' v' st') = Inl e"
      by (simp add: bfs.simps [of q v st])
    from "1.IH" [OF Inl a [symmetric] refl inv' this] len show ?thesis by simp
  next
    case (Inr out)
    obtain r st' where o: "out = (r, st')" by fastforce
    with "1.prems"(2) Inr have "r = Inl e"
      by (simp add: bfs.simps [of q v st])
    with Inr o search_inv_outcome [OF "1.prems"(1), of e st'] show ?thesis by simp
  qed
qed



section \<open>Termination of the placement search\<close>

lemma backfill_length:
  assumes "backfill st pos c P U = (Inr (c', P', U'), st')"
  shows "length (case c' of None \<Rightarrow> [] | Some k \<Rightarrow> [k]) + length U'
           \<le> length (case c of None \<Rightarrow> [] | Some k \<Rightarrow> [k :: nat]) + length U"
  using assms
  by (auto simp: backfill_def split: list.splits if_splits sum.splits option.splits)

lemma children_split:
  "length (filter (\<lambda>u. parent u = Some p \<and> position u = Some Left) st)
   + length (filter (\<lambda>u. parent u = Some p \<and> position u = Some Right) st)
   + length (filter (\<lambda>u. parent u = Some p \<and> position u = None) st)
   = length (filter (\<lambda>u. parent u = Some p) st)"
proof (induction st)
  case Nil
  show ?case by simp
next
  case (Cons a st)
  show ?case
  proof (cases "position a")
    case None
    with Cons show ?thesis by simp
  next
    case (Some q)
    with Cons show ?thesis by (cases q) simp_all
  qed
qed

lemma child_at_length:
  "length (case child_at st p q of None \<Rightarrow> [] | Some k \<Rightarrow> [k])
     \<le> length (filter (\<lambda>u. parent u = Some p \<and> position u = Some q) st)"
proof (cases "occupied st p q")
  case True
  then have "filter (\<lambda>u. parent u = Some p \<and> position u = Some q) st \<noteq> []"
    by (auto simp: occupied_def list_ex_iff filter_empty_conv)
  then have "1 \<le> length (filter (\<lambda>u. parent u = Some p \<and> position u = Some q) st)"
    by (simp add: Suc_le_eq)
  with True show ?thesis by (simp add: child_at_def)
next
  case False
  then show ?thesis by (simp add: child_at_def)
qed

lemma visit_kids_length:
  assumes "visit st p = (Inr (m, kids), st')"
  shows "length kids \<le> length (filter (\<lambda>u. parent u = Some p) st)"
proof -
  let ?opt = "\<lambda>c. case c of None \<Rightarrow> [] | Some (k::nat) \<Rightarrow> [k]"
  let ?U = "unpositioned_children st p"
  from assms obtain l1 P1 U1 st1 r1 P2 U2 where
    b1: "backfill st Left (child_at st p Left) {q. occupied st p q} ?U = (Inr (l1, P1, U1), st1)"
    and b2: "backfill st1 Right (child_at st p Right) P1 U1 = (Inr (r1, P2, U2), st')"
    and k: "kids = ?opt l1 @ ?opt r1 @ U2"
    by (auto simp: visit_def classify_children split: prod.splits sum.splits)
  from backfill_length [OF b1] backfill_length [OF b2]
  have "length kids \<le> length (?opt (child_at st p Left)) + length (?opt (child_at st p Right))
                        + length ?U"
    unfolding k by simp
  also have "\<dots> \<le> length (filter (\<lambda>u. parent u = Some p) st)"
    using child_at_length [of st p Left] child_at_length [of st p Right] children_split [of p st]
    by (simp add: unpositioned_children_def)
  finally show ?thesis .
qed

text \<open>
  The documents whose parent has not been visited. Visiting \<open>p\<close> takes the children of
  \<open>p\<close> out of them, and enqueues no more ids than \<open>p\<close> has children.
\<close>

lemma pending_visit:
  assumes "p \<notin> set v"
  shows "length (filter (\<lambda>u. parent u \<notin> Some ` set v) st)
           = length (filter (\<lambda>u. parent u \<notin> Some ` set (v @ [p])) st)
             + length (filter (\<lambda>u. parent u = Some p) st)"
  using assms by (induction st) auto

lemma pending_links:
  assumes "links st' = links st"
  shows "length (filter (\<lambda>u. P (parent u)) st') = length (filter (\<lambda>u. P (parent u)) st)"
proof -
  from assms have "map (snd \<circ> snd \<circ> snd) (links st') = map (snd \<circ> snd \<circ> snd) (links st)"
    by simp
  then have "map parent st' = map parent st"
    by (simp add: links_def comp_def)
  then have "length (filter P (map parent st')) = length (filter P (map parent st))"
    by simp
  then show ?thesis
    by (simp add: filter_map comp_def)
qed

lemma loop_body_potential:
  assumes "loop_body q v st = Inl (q', v', st')"
  shows "length q' + length (filter (\<lambda>u. parent u \<notin> Some ` set v') st')
           < length q + length (filter (\<lambda>u. parent u \<notin> Some ` set v) st)"
proof (cases q)
  case Nil
  with assms show ?thesis by (simp add: loop_body_def)
next
  case (Cons p rest)
  show ?thesis
  proof (cases "p \<in> set v")
    case True
    with assms Cons show ?thesis by (simp add: loop_body_def)
  next
    case False
    from assms Cons False obtain kids where vis: "visit st p = (Inr (None, kids), st')"
      and e: "q' = rest @ kids" "v' = v @ [p]"
      by (auto simp: loop_body_def split: if_splits prod.splits sum.splits option.splits)
    have l: "links st' = links st"
      using visit_links [of st p] vis by simp
    have "length (filter (\<lambda>u. parent u \<notin> Some ` set v') st')
            = length (filter (\<lambda>u. parent u \<notin> Some ` set v') st)"
      by (rule pending_links [OF l, of "\<lambda>x. x \<notin> Some ` set v'"])
    with pending_visit [OF False, of st] visit_kids_length [OF vis] show ?thesis
      unfolding e Cons by simp
  qed
qed

lemma iterate_ends:
  assumes "length q + length (filter (\<lambda>u. parent u \<notin> Some ` set v) st) < n"
  shows "\<exists>out. iterate n (q, v, st) = Inr out"
  using assms
proof (induction n arbitrary: q v st)
  case 0
  then show ?case by simp
next
  case (Suc n)
  show ?case
  proof (cases "loop_body q v st")
    case (Inr out)
    then show ?thesis by simp
  next
    case (Inl a)
    obtain q' v' st' where a: "a = (q', v', st')" using prod_cases3 by blast
    from loop_body_potential [OF Inl [unfolded a]] Suc.prems
    have "length q' + length (filter (\<lambda>u. parent u \<notin> Some ` set v') st') < n"
      by simp
    from Suc.IH [OF this] Inl a show ?thesis by simp
  qed
qed

lemma iterate_bfs:
  assumes "iterate n (q, v, st) = Inr out"
  shows "bfs q v st = out"
  using assms
proof (induction n arbitrary: q v st)
  case 0
  then show ?case by simp
next
  case (Suc n)
  show ?case
  proof (cases "loop_body q v st")
    case (Inr o')
    with Suc.prems show ?thesis by (simp add: bfs.simps [of q v st])
  next
    case (Inl a)
    obtain q' v' st' where a: "a = (q', v', st')" using prod_cases3 by blast
    with Suc.prems Inl have "iterate n (q', v', st') = Inr out" by simp
    from Suc.IH [OF this] Inl a show ?thesis by (simp add: bfs.simps [of q v st])
  qed
qed

lemma iterate_visited:
  assumes "iterate n (q, v, st) = Inl (q', v', st')"
    and "distinct v" and "length v \<le> MAX_VISITS"
  shows "distinct v' \<and> length v' \<le> MAX_VISITS"
  using assms
proof (induction n arbitrary: q v st)
  case 0
  then show ?case by simp
next
  case (Suc n)
  from Suc.prems(1) obtain q1 v1 st1 where step: "loop_body q v st = Inl (q1, v1, st1)"
    and rest: "iterate n (q1, v1, st1) = Inl (q', v', st')"
    by (auto split: sum.splits)
  from step Suc.prems(2,3) have "distinct v1 \<and> length v1 \<le> MAX_VISITS"
    by (auto simp: loop_body_def split: list.splits if_splits prod.splits sum.splits option.splits)
  with Suc.IH [OF rest] show ?case by simp
qed

text \<open>
  C9. On every store, also one with cycles or other malformed parent references, the loop
  of \<^verbatim>\<open>findBinaryPlacement\<close> ends: after at most \<open>length st + 2\<close> iterations it
  has produced the outcome of the function (a slot or a thrown error). At every
  iteration the visited ids are pairwise distinct, so no node is processed twice, and
  there are never more than \<open>MAX_VISITS\<close> of them: the search aborts instead.
\<close>

theorem search_terminates:
  "(\<exists>n \<le> length st + 2.
       iterate n ([sponsorId], [], st) = Inr (findBinaryPlacement sponsorId st))
   \<and> (\<forall>n queue visited st'.
         iterate n ([sponsorId], [], st) = Inl (queue, visited, st')
           \<longrightarrow> distinct visited \<and> length visited \<le> MAX_VISITS)"
proof -
  have "length [sponsorId] + length (filter (\<lambda>u. parent u \<notin> Some ` set []) st) < length st + 2"
    by simp
  from iterate_ends [OF this] obtain out where
    out: "iterate (length st + 2) ([sponsorId], [], st) = Inr out" by blast
  from iterate_bfs [OF this] have "findBinaryPlacement sponsorId st = out"
    by (simp add: findBinaryPlacement_def)
  with out have ends: "\<exists>n \<le> length st + 2.
       iterate n ([sponsorId], [], st) = Inr (findBinaryPlacement sponsorId st)"
    by blast
  have once: "distinct visited \<and> length visited \<le> MAX_VISITS"
    if "iterate n ([sponsorId], [], st) = Inl (queue, visited, st')" for n queue visited st'
    using iterate_visited [OF that] by simp
  from ends once show ?thesis by blast
qed

theorem search_terminates_witness:
  "iterate 4 ([11], [], cyclic_store) = Inl ([14, 15, 16], [11, 12, 13], cyclic_store)
   \<and> distinct [11, 12, 13 :: nat]
   \<and> iterate 5 ([11], [], cyclic_store) = Inr (Inr (14, Left), cyclic_store)
   \<and> findBinaryPlacement 11 cyclic_store = (Inr (14, Left), cyclic_store)"
proof -
  have four: "(4::nat) = Suc (Suc (Suc (Suc 0)))" and five: "(5::nat) = Suc (Suc (Suc (Suc (Suc 0))))"
    by simp_all
  have 4: "iterate 4 ([11], [], cyclic_store) = Inl ([14, 15, 16], [11, 12, 13], cyclic_store)"
    unfolding four
    by (simp add: loop_body_def visit_def backfill_def pickMissingPosition_def
          MAX_VISITS_def cyclic_store_def member_def)
  have 5: "iterate 5 ([11], [], cyclic_store) = Inr (Inr (14, Left), cyclic_store)"
    unfolding five
    by (simp add: loop_body_def visit_def backfill_def pickMissingPosition_def
          MAX_VISITS_def cyclic_store_def member_def)
  from search_terminates [of cyclic_store 11] 4 5 iterate_bfs [OF 5] show ?thesis
    by (simp add: findBinaryPlacement_def)
qed

section \<open>Level order of the placement search\<close>

subsection \<open>What a backfill write changes\<close>

lemma set_pos_split:
  assumes d: "distinct (map uid st)" and x: "x \<in> set st"
  shows "\<exists>ys zs. st = ys @ x # zs \<and> (\<forall>u \<in> set ys \<union> set zs. uid u \<noteq> uid x)
           \<and> set_pos (uid x) q st = ys @ x\<lparr>position := Some q\<rparr> # zs"
proof -
  from split_list [OF x] obtain ys zs where st: "st = ys @ x # zs" by blast
  from d have n: "\<forall>u \<in> set ys \<union> set zs. uid u \<noteq> uid x"
    unfolding st by (auto simp: image_iff)
  then have "map (\<lambda>u. if uid u = uid x then u\<lparr>position := Some q\<rparr> else u) ys = ys"
    and "map (\<lambda>u. if uid u = uid x then u\<lparr>position := Some q\<rparr> else u) zs = zs"
    by (simp_all add: map_idI)
  then have "set_pos (uid x) q st = ys @ x\<lparr>position := Some q\<rparr> # zs"
    unfolding st by (simp add: set_pos_def)
  with st n show ?thesis by blast
qed

text \<open>Giving a slot to a child of \<open>p\<close> changes nothing for another parent.\<close>

lemma set_pos_other:
  assumes d: "distinct (map uid st)" and x: "x \<in> set st" and px: "parent x = Some p"
    and ne: "y \<noteq> p"
  shows "filter (\<lambda>u. parent u = Some y \<and> Q (position u)) (set_pos (uid x) q st)
           = filter (\<lambda>u. parent u = Some y \<and> Q (position u)) st"
proof -
  from set_pos_split [OF d x, of q] obtain ys zs where st: "st = ys @ x # zs"
    and sp: "set_pos (uid x) q st = ys @ x\<lparr>position := Some q\<rparr> # zs" by blast
  show ?thesis
    unfolding sp unfolding st using px ne by simp
qed

lemma others_unchanged:
  assumes "\<And>Q. filter (\<lambda>u. parent u = Some y \<and> Q (position u)) st'
                 = filter (\<lambda>u. parent u = Some y \<and> Q (position u)) st"
  shows "occupied st' y q = occupied st y q" and "child_at st' y q = child_at st y q"
    and "unpositioned_children st' y = unpositioned_children st y"
proof -
  have f: "filter (\<lambda>u. parent u = Some y \<and> position u = r) st'
             = filter (\<lambda>u. parent u = Some y \<and> position u = r) st" for r
    using assms [of "\<lambda>z. z = r"] .
  have "occupied st y q \<longleftrightarrow> filter (\<lambda>u. parent u = Some y \<and> position u = Some q) st \<noteq> []" for st
    by (auto simp: occupied_def list_ex_iff filter_empty_conv)
  with f show o: "occupied st' y q = occupied st y q" by simp
  from f o show "child_at st' y q = child_at st y q" by (simp add: child_at_def)
  from f show "unpositioned_children st' y = unpositioned_children st y"
    by (simp add: unpositioned_children_def)
qed

text \<open>Giving the free slot \<open>q\<close> of \<open>p\<close> to its first unpositioned child.\<close>

lemma set_pos_child:
  assumes d: "distinct (map uid st)" and U: "unpositioned_children st p = a # rest"
    and free: "\<not> occupied st p q"
  shows "unpositioned_children (set_pos a q st) p = rest"
    and "occupied (set_pos a q st) p q' \<longleftrightarrow> q' = q \<or> occupied st p q'"
    and "child_at (set_pos a q st) p q = Some a"
    and "q' \<noteq> q \<Longrightarrow> child_at (set_pos a q st) p q' = child_at st p q'"
proof -
  have "a \<in> set (unpositioned_children st p)" using U by simp
  then obtain x where x: "x \<in> set st" "uid x = a" "position x = None" "parent x = Some p"
    by (auto simp: unpositioned_in_store)
  from set_pos_split [OF d x(1), of q] x(2) obtain ys zs where st: "st = ys @ x # zs"
    and n: "\<forall>u \<in> set ys \<union> set zs. uid u \<noteq> a"
    and sp: "set_pos a q st = ys @ x\<lparr>position := Some q\<rparr> # zs" by auto
  let ?un = "\<lambda>xs. map uid (filter (\<lambda>u. parent u = Some p \<and> position u = None) xs)"
  from U have "?un ys @ a # ?un zs = a # rest"
    unfolding st unpositioned_children_def using x by simp
  moreover have "a \<notin> set (?un ys)" using n by auto
  ultimately have uy: "?un ys = []" and uz: "?un zs = rest"
    by (cases "?un ys"; simp)+
  show "unpositioned_children (set_pos a q st) p = rest"
    unfolding sp unpositioned_children_def using uy uz x by simp
  show occ: "occupied (set_pos a q st) p q' \<longleftrightarrow> q' = q \<or> occupied st p q'" for q'
    unfolding sp unfolding st using x by (auto simp: occupied_def)
  from free have fy: "filter (\<lambda>u. parent u = Some p \<and> position u = Some q) ys = []"
    and fz: "filter (\<lambda>u. parent u = Some p \<and> position u = Some q) zs = []"
    unfolding st by (auto simp: occupied_def list_ex_iff filter_empty_conv)
  have "filter (\<lambda>u. parent u = Some p \<and> position u = Some q) (set_pos a q st)
          = [x\<lparr>position := Some q\<rparr>]"
    unfolding sp using fy fz x by simp
  with occ [of q] x show "child_at (set_pos a q st) p q = Some a"
    by (simp add: child_at_def)
  show "child_at (set_pos a q st) p q' = child_at st p q'" if "q' \<noteq> q"
  proof -
    have "filter (\<lambda>u. parent u = Some p \<and> position u = Some q') (set_pos a q st)
            = filter (\<lambda>u. parent u = Some p \<and> position u = Some q') st"
      unfolding sp unfolding st using x that by simp
    with occ [of q'] that show ?thesis by (simp add: child_at_def)
  qed
qed

lemma fill_after:
  assumes d: "distinct (map uid st)" and c: "c = child_at st p q"
    and P: "P = {r. occupied st p r}" and U: "U = unpositioned_children st p"
    and f: "fill q c P U st = (c', P', U', st')"
  shows "distinct (map uid st')" and "c' = child_at st' p q"
    and "P' = {r. occupied st' p r}" and "U' = unpositioned_children st' p"
    and "\<And>q'. q' \<noteq> q \<Longrightarrow> child_at st' p q' = child_at st p q'"
    and "\<And>y Q. y \<noteq> p \<Longrightarrow>
           filter (\<lambda>u. parent u = Some y \<and> Q (position u)) st'
             = filter (\<lambda>u. parent u = Some y \<and> Q (position u)) st"
proof -
  consider (same) "c' = c" "P' = P" "U' = U" "st' = st"
    | (filled) a where "U = a # U'" "c = None" "c' = Some a" "P' = insert q P" "st' = set_pos a q st"
    using f by (auto simp: fill_def split: list.splits if_splits)
  then have "distinct (map uid st') \<and> c' = child_at st' p q \<and> P' = {r. occupied st' p r}
      \<and> U' = unpositioned_children st' p
      \<and> (\<forall>q'. q' \<noteq> q \<longrightarrow> child_at st' p q' = child_at st p q')
      \<and> (\<forall>y Q. y \<noteq> p \<longrightarrow>
           filter (\<lambda>u. parent u = Some y \<and> Q (position u)) st'
             = filter (\<lambda>u. parent u = Some y \<and> Q (position u)) st)"
  proof cases
    case same
    with d c P U show ?thesis by simp
  next
    case filled
    from filled(1) U have Ua: "unpositioned_children st p = a # U'" by simp
    from filled(2) c have free: "\<not> occupied st p q" by (simp add: child_at_None)
    note sc = set_pos_child [OF d Ua free]
    have "a \<in> set (unpositioned_children st p)" using Ua by simp
    then obtain x where x: "x \<in> set st" "uid x = a" "parent x = Some p"
      by (auto simp: unpositioned_in_store)
    have oth: "filter (\<lambda>u. parent u = Some y \<and> Q (position u)) (set_pos a q st)
             = filter (\<lambda>u. parent u = Some y \<and> Q (position u)) st" if "y \<noteq> p" for y Q
      using set_pos_other [OF d x(1) x(3) that, of Q q] x(2) by simp
    have "P' = {r. occupied st' p r}"
      unfolding filled(4,5) P using sc(2) by auto
    with d sc oth show ?thesis
      unfolding filled(3,5) by simp
  qed
  then show "distinct (map uid st')" and "c' = child_at st' p q"
    and "P' = {r. occupied st' p r}" and "U' = unpositioned_children st' p"
    and "\<And>q'. q' \<noteq> q \<Longrightarrow> child_at st' p q' = child_at st p q'"
    and "\<And>y Q. y \<noteq> p \<Longrightarrow>
           filter (\<lambda>u. parent u = Some y \<and> Q (position u)) st'
             = filter (\<lambda>u. parent u = Some y \<and> Q (position u)) st"
    by simp_all
qed

text \<open>
  A visit in a store with distinct ids, read off the store it leaves: it reports the first
  free slot of the node, or else the children to enqueue, and it changes nothing for the
  other nodes.
\<close>

lemma visit_after:
  assumes d: "distinct (map uid st)"
  shows "fst (visit st p)
           = Inr (pickMissingPosition {q. occupied (snd (visit st p)) p q},
                  enqueued (snd (visit st p)) p)"
    and "distinct (map uid (snd (visit st p)))"
    and "\<And>y Q. y \<noteq> p \<Longrightarrow>
           filter (\<lambda>u. parent u = Some y \<and> Q (position u)) (snd (visit st p))
             = filter (\<lambda>u. parent u = Some y \<and> Q (position u)) st"
proof -
  obtain l1 P1 U1 st1 where f1:
    "fill Left (child_at st p Left) {q. occupied st p q} (unpositioned_children st p) st
       = (l1, P1, U1, st1)"
    using prod_cases4 by blast
  obtain r1 P2 U2 st2 where f2: "fill Right (child_at st p Right) P1 U1 st1 = (r1, P2, U2, st2)"
    using prod_cases4 by blast
  note a1 = fill_after [OF d refl refl refl f1]
  have cr: "child_at st p Right = child_at st1 p Right"
    using a1(5) [of Right] by simp
  note a2 = fill_after [OF a1(1) cr a1(3) a1(4) f2]
  have l: "l1 = child_at st2 p Left"
    using a1(2) a2(5) [of Left] by simp
  have v: "visit st p =
      (Inr (pickMissingPosition P2,
            (case l1 of None \<Rightarrow> [] | Some l \<Rightarrow> [l]) @
            (case r1 of None \<Rightarrow> [] | Some r \<Rightarrow> [r]) @ U2), st2)"
    by (simp add: visit_fill [OF d] f1 f2)
  show "fst (visit st p)
           = Inr (pickMissingPosition {q. occupied (snd (visit st p)) p q},
                  enqueued (snd (visit st p)) p)"
    unfolding v using l a2(2,3,4) by (simp add: enqueued_def)
  show "distinct (map uid (snd (visit st p)))"
    unfolding v using a2(1) by simp
  show "filter (\<lambda>u. parent u = Some y \<and> Q (position u)) (snd (visit st p))
             = filter (\<lambda>u. parent u = Some y \<and> Q (position u)) st" if "y \<noteq> p" for y Q
    unfolding v using a1(6) [OF that, of Q] a2(6) [OF that, of Q] by simp
qed

lemma visit_others:
  assumes d: "distinct (map uid st)" and ne: "y \<noteq> p"
  shows "full_node (snd (visit st p)) y = full_node st y"
    and "enqueued (snd (visit st p)) y = enqueued st y"
proof -
  note o = others_unchanged [of y "snd (visit st p)" st, OF visit_after(3) [OF d ne]]
  show "full_node (snd (visit st p)) y = full_node st y"
    by (simp add: full_node_def o(1))
  show "enqueued (snd (visit st p)) y = enqueued st y"
    by (simp add: enqueued_def o(2,3))
qed

subsection \<open>Queues in level order\<close>

lemma aligned_seen: "set zs \<subseteq> S \<Longrightarrow> aligned S [] zs"
  by (induction zs) auto

lemma aligned_refl: "aligned S zs zs"
  by (induction zs arbitrary: S) auto

lemma aligned_append_seen:
  assumes "aligned S Q VQ" and "set zs \<subseteq> S \<union> set Q"
  shows "aligned S Q (VQ @ zs)"
  using assms
proof (induction VQ arbitrary: S Q)
  case Nil
  then show ?case by (simp add: aligned_seen)
next
  case (Cons y VQ)
  from Cons.prems(1) consider rest where "Q = y # rest" "aligned (insert y S) rest VQ"
    | "y \<in> S" "aligned S Q VQ" by auto
  then show ?case
  proof cases
    case 1
    from Cons.prems(2) 1(1) have "set zs \<subseteq> insert y S \<union> set rest" by auto
    from Cons.IH [OF 1(2) this] 1(1) show ?thesis by simp
  next
    case 2
    from Cons.IH [OF 2(2) Cons.prems(2)] 2(1) show ?thesis by simp
  qed
qed

lemma aligned_append_same:
  assumes "aligned S Q VQ"
  shows "aligned S (Q @ zs) (VQ @ zs)"
  using assms
proof (induction VQ arbitrary: S Q)
  case Nil
  then show ?case by (simp add: aligned_refl)
next
  case (Cons y VQ)
  from Cons.prems consider rest where "Q = y # rest" "aligned (insert y S) rest VQ"
    | "y \<in> S" "aligned S Q VQ" by auto
  then show ?case
  proof cases
    case 1
    from Cons.IH [OF 1(2)] 1(1) show ?thesis by simp
  next
    case 2
    from Cons.IH [OF 2(2)] 2(1) show ?thesis by simp
  qed
qed

lemma aligned_head:
  assumes "aligned S (q # Q') VQ"
  shows "\<exists>ys VQ'. VQ = ys @ q # VQ' \<and> set ys \<subseteq> S \<and> aligned (insert q S) Q' VQ'"
  using assms
proof (induction VQ)
  case Nil
  then show ?case by simp
next
  case (Cons y VQ)
  from Cons.prems consider "y = q" "aligned (insert y S) Q' VQ"
    | "y \<in> S" "aligned S (q # Q') VQ" by auto
  then show ?case
  proof cases
    case 1
    then have "y # VQ = [] @ q # VQ \<and> set [] \<subseteq> S \<and> aligned (insert q S) Q' VQ" by simp
    then show ?thesis by blast
  next
    case 2
    from Cons.IH [OF 2(2)] obtain ys VQ' where
      "VQ = ys @ q # VQ'" "set ys \<subseteq> S" "aligned (insert q S) Q' VQ'" by blast
    with 2(1) have "y # VQ = (y # ys) @ q # VQ' \<and> set (y # ys) \<subseteq> S \<and> aligned (insert q S) Q' VQ'"
      by simp
    then show ?thesis by blast
  qed
qed

lemma level_queue_step:
  assumes "level_queue st s V (y # VQ)" and "y \<in> V"
  shows "level_queue st s V (VQ @ enqueued st y)"
proof -
  from assms(1) obtain d pre post where lv: "tree_level st s d = pre @ post"
    and q: "y # VQ = post @ concat (map (enqueued st) pre)"
    and low: "\<forall>d' < d. set (tree_level st s d') \<subseteq> V"
    and pre: "set pre \<subseteq> V"
    unfolding level_queue_def by blast
  show ?thesis
  proof (cases post)
    case (Cons a post')
    with q have a: "a = y" and VQ: "VQ = post' @ concat (map (enqueued st) pre)" by simp_all
    have "tree_level st s d = (pre @ [y]) @ post'" using lv Cons a by simp
    moreover have "VQ @ enqueued st y = post' @ concat (map (enqueued st) (pre @ [y]))"
      using VQ by simp
    moreover have "set (pre @ [y]) \<subseteq> V" using pre assms(2) by simp
    ultimately show ?thesis
      unfolding level_queue_def using low by blast
  next
    case Nil
    with q lv have nxt: "tree_level st s (Suc d) = y # VQ" by simp
    from Nil lv pre have cur: "set (tree_level st s d) \<subseteq> V" by simp
    have "tree_level st s (Suc d) = [y] @ VQ" using nxt by simp
    moreover have "VQ @ enqueued st y = VQ @ concat (map (enqueued st) [y])" by simp
    moreover have "\<forall>d' < Suc d. set (tree_level st s d') \<subseteq> V"
      using low cur by (auto simp: less_Suc_eq)
    moreover have "set [y] \<subseteq> V" using assms(2) by simp
    ultimately show ?thesis
      unfolding level_queue_def by blast
  qed
qed

lemma level_queue_steps:
  assumes "level_queue st s V (ys @ VQ)" and "set ys \<subseteq> V"
  shows "level_queue st s V (VQ @ concat (map (enqueued st) ys))"
  using assms
proof (induction ys arbitrary: VQ)
  case Nil
  then show ?case by simp
next
  case (Cons y ys)
  from Cons.prems have "level_queue st s V (y # (ys @ VQ))" "y \<in> V" by simp_all
  from level_queue_step [OF this] have "level_queue st s V (ys @ (VQ @ enqueued st y))" by simp
  from Cons.IH [OF this] Cons.prems(2) show ?case by simp
qed

lemma level_queue_head:
  assumes "level_queue st s V (y # VQ)"
  shows "\<exists>d pre post. tree_level st s d = pre @ y # post
          \<and> (\<forall>d' < d. set (tree_level st s d') \<subseteq> V) \<and> set pre \<subseteq> V"
proof -
  from assms(1) obtain d pre post where lv: "tree_level st s d = pre @ post"
    and q: "y # VQ = post @ concat (map (enqueued st) pre)"
    and low: "\<forall>d' < d. set (tree_level st s d') \<subseteq> V"
    and pre: "set pre \<subseteq> V"
    unfolding level_queue_def by blast
  show ?thesis
  proof (cases post)
    case (Cons a post')
    with q lv have "tree_level st s d = pre @ y # post'" by simp
    with low pre show ?thesis by blast
  next
    case Nil
    with q lv have "tree_level st s (Suc d) = [] @ y # VQ" by simp
    moreover from Nil lv pre low have "\<forall>d' < Suc d. set (tree_level st s d') \<subseteq> V"
      by (auto simp: less_Suc_eq)
    moreover have "set [] \<subseteq> V" by simp
    ultimately show ?thesis by blast
  qed
qed

lemma level_queue_mono:
  assumes "level_queue st s V q" and "V \<subseteq> V'"
  shows "level_queue st s V' q"
proof -
  from assms(1) obtain d pre post where "tree_level st s d = pre @ post"
    and "q = post @ concat (map (enqueued st) pre)"
    and "\<forall>d' < d. set (tree_level st s d') \<subseteq> V"
    and "set pre \<subseteq> V"
    unfolding level_queue_def by blast
  moreover from this assms(2) have "\<forall>d' < d. set (tree_level st s d') \<subseteq> V'" "set pre \<subseteq> V'"
    by auto
  ultimately show ?thesis
    unfolding level_queue_def by blast
qed

text \<open>Levels that lie in \<open>V\<close> are the same in a store that agrees on the nodes of \<open>V\<close>.\<close>

lemma tree_level_transfer:
  assumes same: "\<forall>x \<in> V. enqueued st' x = enqueued st x"
    and low: "\<forall>d' < d. set (tree_level st s d') \<subseteq> V"
  shows "d' \<le> d \<Longrightarrow> tree_level st' s d' = tree_level st s d'"
proof (induction d')
  case 0
  show ?case by simp
next
  case (Suc k)
  then have k: "tree_level st' s k = tree_level st s k" and "k < d" by simp_all
  with low have "set (tree_level st s k) \<subseteq> V" by simp
  with same have "map (enqueued st') (tree_level st s k) = map (enqueued st) (tree_level st s k)"
    by (intro map_cong) auto
  with k show ?case by (simp only: tree_level.simps)
qed

lemma level_queue_transfer:
  assumes same: "\<forall>x \<in> V. enqueued st' x = enqueued st x" and lq: "level_queue st s V q"
  shows "level_queue st' s V q"
proof -
  from lq obtain d pre post where lv: "tree_level st s d = pre @ post"
    and q: "q = post @ concat (map (enqueued st) pre)"
    and low: "\<forall>d' < d. set (tree_level st s d') \<subseteq> V"
    and pre: "set pre \<subseteq> V"
    unfolding level_queue_def by blast
  note t = tree_level_transfer [OF same low]
  have "tree_level st' s d = pre @ post" using t [of d] lv by simp
  moreover have "map (enqueued st') pre = map (enqueued st) pre"
    using same pre by (intro map_cong) auto
  with q have "q = post @ concat (map (enqueued st') pre)" by (simp only:)
  moreover have "\<forall>d' < d. set (tree_level st' s d') \<subseteq> V"
    using low t by simp
  ultimately show ?thesis
    unfolding level_queue_def using pre by blast
qed

lemma pick_full:
  "pickMissingPosition {q. occupied st p q} = None \<longleftrightarrow> full_node st p"
  by (simp add: pickMissingPosition_def full_node_def)

lemma pick_slot:
  "pickMissingPosition {q. occupied st p q} = Some pos
     \<longleftrightarrow> \<not> full_node st p \<and> pos = (if occupied st p Left then Right else Left)"
  by (auto simp: pickMissingPosition_def full_node_def)

subsection \<open>The search visits in level order\<close>

text \<open>
  The invariant: everything visited is full in the store as it is now, with its children
  visited or queued, and the queue is aligned with a level-order queue whose passed part
  has been visited.
\<close>

lemma bfs_level_order:
  assumes d: "distinct (map uid st)"
    and full: "\<forall>x \<in> set v. full_node st x"
    and closed: "\<forall>x \<in> set v. set (enqueued st x) \<subseteq> set v \<union> set q"
    and al: "aligned (set v) q VQ" and lq: "level_queue st s (set v) VQ"
    and res: "bfs q v st = (Inr (p, slot), st')"
  shows "(\<exists>k pre post. tree_level st' s k = pre @ p # post
              \<and> (\<forall>k' < k. \<forall>x \<in> set (tree_level st' s k'). full_node st' x)
              \<and> (\<forall>x \<in> set pre. full_node st' x))
       \<and> \<not> full_node st' p \<and> slot = (if occupied st' p Left then Right else Left)"
  using assms
proof (induction q v st arbitrary: VQ rule: bfs.induct)
  case (1 q v st)
  note IH = "1.IH" and d = "1.prems"(1) and full = "1.prems"(2) and closed = "1.prems"(3)
    and al = "1.prems"(4) and lq = "1.prems"(5) and res = "1.prems"(6)
  show ?case
  proof (cases q)
    case Nil
    then have "loop_body q v st = Inr (Inl UnableToFind, st)"
      by (simp add: loop_body_def)
    with res show ?thesis
      by (simp add: bfs.simps [of q v st])
  next
    case (Cons a rest)
    from aligned_head [OF al [unfolded Cons]] obtain ys VQ' where VQ: "VQ = ys @ a # VQ'"
      and ys: "set ys \<subseteq> set v" and al': "aligned (insert a (set v)) rest VQ'"
      by blast
    show ?thesis
    proof (cases "a \<in> set v")
      case True
      have lb: "loop_body q v st = Inl (rest, v, st)"
        using True Cons by (simp add: loop_body_def)
      from res lb have res': "bfs rest v st = (Inr (p, slot), st')"
        by (simp add: bfs.simps [of q v st])
      from True have ins: "insert a (set v) = set v" by auto
      from True ys have "set (ys @ [a]) \<subseteq> set v" by simp
      moreover from lq VQ have "level_queue st s (set v) ((ys @ [a]) @ VQ')" by simp
      ultimately have lq': "level_queue st s (set v) (VQ' @ concat (map (enqueued st) (ys @ [a])))"
        by (rule level_queue_steps [rotated])
      have closed': "\<forall>x \<in> set v. set (enqueued st x) \<subseteq> set v \<union> set rest"
        using closed True Cons by auto
      have "set (concat (map (enqueued st) (ys @ [a]))) \<subseteq> set v \<union> set rest"
        using closed' ys True by auto
      from aligned_append_seen [OF al' [unfolded ins] this]
      have al'': "aligned (set v) rest (VQ' @ concat (map (enqueued st) (ys @ [a])))" .
      from IH [OF lb refl refl d full closed' al'' lq' res'] show ?thesis .
    next
      case False
      show ?thesis
      proof (cases "length (v @ [a]) > MAX_VISITS")
        case True
        with Cons False have "loop_body q v st = Inr (Inl ExceededSafeLimit, st)"
          by (simp add: loop_body_def)
        with res show ?thesis
          by (simp add: bfs.simps [of q v st])
      next
        case cap: False
        define st1 where "st1 = snd (visit st a)"
        have vis: "visit st a
                     = (Inr (pickMissingPosition {q. occupied st1 a q}, enqueued st1 a), st1)"
          using visit_after(1) [OF d, of a] unfolding st1_def by (simp add: prod_eq_iff)
        have d1: "distinct (map uid st1)"
          unfolding st1_def by (rule visit_after(2) [OF d])
        have same: "full_node st1 x = full_node st x" "enqueued st1 x = enqueued st x"
          if "x \<in> set v" for x
        proof -
          from that False have "x \<noteq> a" by auto
          from visit_others [OF d this]
          show "full_node st1 x = full_node st x" "enqueued st1 x = enqueued st x"
            unfolding st1_def by simp_all
        qed
        have full1: "\<forall>x \<in> set v. full_node st1 x"
          using full same(1) by simp
        have lq1: "level_queue st1 s (set v) VQ"
          using level_queue_transfer [OF _ lq, of st1] same(2) by simp
        show ?thesis
        proof (cases "pickMissingPosition {q. occupied st1 a q}")
          case None
          then have fa: "full_node st1 a" by (simp add: pick_full)
          have lb: "loop_body q v st = Inl (rest @ enqueued st1 a, v @ [a], st1)"
            using False cap Cons vis None by (simp add: loop_body_def)
          from res lb have res': "bfs (rest @ enqueued st1 a) (v @ [a]) st1 = (Inr (p, slot), st')"
            by (simp add: bfs.simps [of q v st])
          have full': "\<forall>x \<in> set (v @ [a]). full_node st1 x"
            using full1 fa by simp
          have closed': "\<forall>x \<in> set (v @ [a]).
                           set (enqueued st1 x) \<subseteq> set (v @ [a]) \<union> set (rest @ enqueued st1 a)"
            using closed same(2) Cons by auto
          have "level_queue st1 s (set (v @ [a])) ((ys @ [a]) @ VQ')"
            using level_queue_mono [OF lq1, of "set (v @ [a])"] VQ by auto
          moreover have "set (ys @ [a]) \<subseteq> set (v @ [a])" using ys by auto
          ultimately have lq': "level_queue st1 s (set (v @ [a]))
                                  (VQ' @ concat (map (enqueued st1) (ys @ [a])))"
            by (rule level_queue_steps)
          have "set (enqueued st1 y) \<subseteq> insert a (set v) \<union> set rest" if "y \<in> set ys" for y
          proof -
            from that ys have y: "y \<in> set v" by auto
            with closed have "set (enqueued st y) \<subseteq> set v \<union> set q" by simp
            with same(2) [OF y] Cons show ?thesis by auto
          qed
          then have ysq: "set (concat (map (enqueued st1) ys)) \<subseteq> insert a (set v) \<union> set rest"
            by auto
          from aligned_append_same [OF aligned_append_seen [OF al' ysq], of "enqueued st1 a"]
          have al'': "aligned (set (v @ [a])) (rest @ enqueued st1 a)
                        (VQ' @ concat (map (enqueued st1) (ys @ [a])))"
            by simp
          from IH [OF lb refl refl d1 full' closed' al'' lq' res'] show ?thesis .
        next
          case (Some slot0)
          have "loop_body q v st = Inr (Inr (a, slot0), st1)"
            using False cap Cons vis Some by (simp add: loop_body_def)
          with res have e: "p = a" "slot = slot0" "st' = st1"
            by (simp_all add: bfs.simps [of q v st])
          from lq1 VQ have "level_queue st1 s (set v) (ys @ (a # VQ'))" by simp
          from level_queue_steps [OF this ys]
          have "level_queue st1 s (set v) (a # (VQ' @ concat (map (enqueued st1) ys)))" by simp
          from level_queue_head [OF this] obtain k pre post where
            "tree_level st1 s k = pre @ a # post"
            "\<forall>k' < k. set (tree_level st1 s k') \<subseteq> set v" "set pre \<subseteq> set v"
            by blast
          with full1 have "\<exists>k pre post. tree_level st1 s k = pre @ a # post
              \<and> (\<forall>k' < k. \<forall>x \<in> set (tree_level st1 s k'). full_node st1 x)
              \<and> (\<forall>x \<in> set pre. full_node st1 x)"
            by (meson subsetD)
          with Some show ?thesis
            unfolding e by (simp add: pick_slot)
        qed
      qed
    qed
  qed
qed

lemma positioned_no_unpositioned:
  "positioned st \<Longrightarrow> unpositioned_children st p = []"
  by (auto simp: positioned_def unpositioned_children_def list_all_iff filter_empty_conv)

lemma visit_positioned:
  assumes "positioned st"
  shows "snd (visit st p) = st"
  by (simp add: visit_def classify_children positioned_no_unpositioned [OF assms] backfill_def)

lemma loop_body_positioned:
  assumes "positioned st"
  shows "case loop_body q v st of Inl (q', v', st') \<Rightarrow> st' = st | Inr out \<Rightarrow> snd out = st"
proof (cases q)
  case Nil
  then show ?thesis by (simp add: loop_body_def)
next
  case (Cons a rest)
  obtain res where "visit st a = (res, st)"
    using visit_positioned [OF assms, of a] by (cases "visit st a") simp
  with Cons show ?thesis
    by (auto simp: loop_body_def split: sum.splits option.splits)
qed

lemma bfs_positioned:
  "positioned st \<Longrightarrow> snd (bfs q v st) = st"
proof (induction q v st rule: bfs.induct)
  case (1 q v st)
  show ?case
  proof (cases "loop_body q v st")
    case (Inl a)
    obtain q' v' st' where a: "a = (q', v', st')" using prod_cases3 by blast
    from Inl a loop_body_positioned [OF "1.prems", of q v] have "st' = st" by simp
    with "1.IH" [OF Inl a [symmetric] refl] "1.prems" Inl a show ?thesis
      by (simp add: bfs.simps [of q v st])
  next
    case (Inr out)
    with loop_body_positioned [OF "1.prems", of q v] have "snd out = st" by simp
    with Inr show ?thesis by (simp add: bfs.simps [of q v st])
  qed
qed

text \<open>
  C3. In a store with distinct ids, a slot returned by \<^verbatim>\<open>findBinaryPlacement\<close> is the
  first free one in breadth-first level order below the sponsor, read in the store as the
  search leaves it: the returned parent lies on some level, every node of the levels
  above and every node before it on its own level has both slots taken, it has a free
  slot itself, and the slot returned is left if its left slot is free and right
  otherwise. When every child has a position the search leaves the store as it was. A
  slot is returned whenever the store has fewer than \<open>MAX_VISITS\<close> documents. For a
  sponsor with both slots taken whose left child has a free left slot, the slot is the
  left child's left slot.
\<close>

theorem placement_level_order:
  assumes "distinct (map uid st)"
  shows "(\<forall>p slot st'. findBinaryPlacement sponsorId st = (Inr (p, slot), st') \<longrightarrow>
            (\<exists>k pre post. tree_level st' sponsorId k = pre @ p # post
               \<and> (\<forall>k' < k. \<forall>x \<in> set (tree_level st' sponsorId k'). full_node st' x)
               \<and> (\<forall>x \<in> set pre. full_node st' x))
            \<and> \<not> full_node st' p \<and> slot = (if occupied st' p Left then Right else Left)
            \<and> (positioned st \<longrightarrow> st' = st))
       \<and> (length st < MAX_VISITS \<longrightarrow>
            (\<exists>p slot. fst (findBinaryPlacement sponsorId st) = Inr (p, slot)))"
proof (intro conjI allI impI)
  fix p slot st'
  assume r: "findBinaryPlacement sponsorId st = (Inr (p, slot), st')"
  have 1: "aligned (set []) [sponsorId] [sponsorId]" by simp
  have "tree_level st sponsorId 0 = [] @ [sponsorId]"
    and "[sponsorId] = [sponsorId] @ concat (map (enqueued st) [])" by simp_all
  then have 2: "level_queue st sponsorId (set []) [sponsorId]"
    unfolding level_queue_def by (metis empty_subsetI not_less_zero set_empty2)
  have 3: "bfs [sponsorId] [] st = (Inr (p, slot), st')"
    using r by (simp add: findBinaryPlacement_def)
  from bfs_level_order [OF assms _ _ 1 2 3]
  show "\<exists>k pre post. tree_level st' sponsorId k = pre @ p # post
               \<and> (\<forall>k' < k. \<forall>x \<in> set (tree_level st' sponsorId k'). full_node st' x)
               \<and> (\<forall>x \<in> set pre. full_node st' x)"
    and "\<not> full_node st' p" and "slot = (if occupied st' p Left then Right else Left)"
    by simp_all
  show "st' = st" if "positioned st"
    using bfs_positioned [OF that, of "[sponsorId]" "[]"] 3 by simp
next
  assume small: "length st < MAX_VISITS"
  have inv: "search_inv sponsorId [sponsorId] [] st"
    using assms by (simp add: search_inv_def)
  show "\<exists>p slot. fst (findBinaryPlacement sponsorId st) = Inr (p, slot)"
  proof (cases "fst (findBinaryPlacement sponsorId st)")
    case (Inl e)
    then have "fst (bfs [sponsorId] [] st) = Inl e"
      by (simp add: findBinaryPlacement_def)
    from bfs_fails_only_by_limit [OF inv this] small show ?thesis by simp
  next
    case (Inr b)
    then show ?thesis by (cases b) simp
  qed
qed

theorem placement_level_order_witness:
  "distinct (map uid family_store) \<and> positioned family_store
   \<and> length family_store < MAX_VISITS
   \<and> findBinaryPlacement 10 family_store = (Inr (11, Left), family_store)
   \<and> tree_level family_store 10 (Suc 0) = [11, 12]
   \<and> full_node family_store 10 \<and> \<not> full_node family_store 11
   \<and> \<not> occupied family_store 11 Left \<and> \<not> occupied family_store 12 Right
   \<and> findBinaryPlacement 10 legacy_store
       = (Inr (11, Left),
          [member 10 None None, member 11 (Some 10) (Some Left),
           member 12 (Some 10) (Some Right), member 13 (Some 10) None])"
proof -
  have d: "distinct (map uid family_store)"
    by (simp add: family_store_def member_def)
  have pos: "positioned family_store"
    by (simp add: positioned_def family_store_def member_def)
  have small: "length family_store < MAX_VISITS"
    by (simp add: family_store_def MAX_VISITS_def)
  have run: "findBinaryPlacement 10 family_store = (Inr (11, Left), family_store)"
    by (simp add: findBinaryPlacement_def bfs.simps loop_body_def visit_def backfill_def
          pickMissingPosition_def MAX_VISITS_def family_store_def member_def)
  have lv: "tree_level family_store 10 (Suc 0) = [11, 12]"
    by (simp add: enqueued_def child_at_def occupied_def unpositioned_children_def
          family_store_def member_def)
  have occ: "full_node family_store 10" "\<not> occupied family_store 11 Left"
    "\<not> occupied family_store 12 Right"
    by (simp_all add: full_node_def occupied_def family_store_def member_def)
  have legacy: "findBinaryPlacement 10 legacy_store
       = (Inr (11, Left),
          [member 10 None None, member 11 (Some 10) (Some Left),
           member 12 (Some 10) (Some Right), member 13 (Some 10) None])"
    by (simp add: findBinaryPlacement_def bfs.simps loop_body_def visit_def backfill_def
          updateOne_def index_conflict_def pickMissingPosition_def MAX_VISITS_def
          legacy_store_def member_def)
  from placement_level_order [OF d, of 10] d pos small run lv occ legacy show ?thesis
    by (simp add: full_node_def)
qed

end
